theory Spec2Isabelle
  imports Main
begin

section \<open>The document the script works on\<close>

text \<open>
  \<^verbatim>\<open>script.js\<close> is one \<^verbatim>\<open>DOMContentLoaded\<close> callback. It reads and writes the
  document through selector queries and keeps the node lists it took at load time.
  The document is modelled as the list of its elements in tree order (the order in which
  \<^verbatim>\<open>querySelector\<close>, \<^verbatim>\<open>querySelectorAll\<close> and \<^verbatim>\<open>getElementById\<close> visit them); an
  element's position in that list is its identity. Only what the script's selectors and
  assignments of the navigation code touch is kept of an element.

  The elements the script creates itself (the menu button, the style sheet, the hover
  overlay) carry no id, no \<^verbatim>\<open>data-section\<close> attribute and none of the classes queried
  below, so no query of the navigation code can return them; they are left out. So are
  the inline styles the animations write and the class \<^verbatim>\<open>open\<close> the menu button toggles
  on the sidebar, which no query reads.
  The document is taken to be in no-quirks mode (class and id matching is case-sensitive).
  A string is a list of characters with the codes 0 to 255, read as the code points below
  \<^verbatim>\<open>U+0100\<close>.
\<close>

datatype dom_text =
  Text string
| NativeText string  \<comment> \<open>the engine's string form of \<^verbatim>\<open>Object.prototype[name]\<close>\<close>

record element =
  el_id :: string  \<comment> \<open>the \<^verbatim>\<open>id\<close> property: empty when the attribute is absent\<close>
  classList :: "string list"
  data_section :: "string option"  \<comment> \<open>the \<^verbatim>\<open>data-section\<close> attribute\<close>
  scrollTop :: int
  textContent :: dom_text

text \<open>
  The session history: the fragments of the entries before the current one, oldest first,
  and the fragment of the current URL (without its \<^verbatim>\<open>#\<close>, empty when the URL has
  none), each as the URL parser has stored it. Entries ahead of the current one are not
  modelled.

  What a selector text means is the browser's matter. The selectors the script writes out
  are read by the model itself (the predicates below). Line 24 builds a selector text from
  its argument; for the texts the model cannot read as the selector the line means, it asks
  the selector engine, the last component of a page: the engine refuses a text (\<open>None\<close>,
  for the script a \<^verbatim>\<open>SyntaxError\<close>) or gives what the text matches, as a predicate on the
  list of elements and a position in it. Nothing is assumed of the engine.
\<close>

record page =
  elems :: "element list"
  prior_entries :: "string list"
  url_fragment :: string
  selector_engine :: "string \<Rightarrow> (element list \<Rightarrow> nat \<Rightarrow> bool) option"

text \<open>The constants of the callback's closure (lines 4 to 6).\<close>

record env =
  channelItems :: "nat list"
  sections :: "nat list"
  channelNameEl :: "nat option"

datatype js_error = TypeError | SyntaxError

datatype completion = Normal | Throw js_error

subsection \<open>Queries\<close>

fun first_index :: "('a \<Rightarrow> bool) \<Rightarrow> 'a list \<Rightarrow> nat option" where
  "first_index P [] = None"
| "first_index P (x # xs) = (if P x then Some 0 else map_option Suc (first_index P xs))"

definition all_indices :: "('a \<Rightarrow> bool) \<Rightarrow> 'a list \<Rightarrow> nat list" where
  "all_indices P xs = filter (\<lambda>i. P (xs ! i)) [0..<length xs]"

definition has_class :: "string \<Rightarrow> element \<Rightarrow> bool" where
  "has_class c e = (c \<in> set (classList e))"

text \<open>The selectors of the script, as predicates on one element.\<close>

definition sel_channel_item :: "element \<Rightarrow> bool" where
  \<comment> \<open>\<^verbatim>\<open>.channel-item[data-section]\<close>\<close>
  "sel_channel_item e = (has_class ''channel-item'' e \<and> data_section e \<noteq> None)"

definition sel_content_section :: "element \<Rightarrow> bool" where
  \<comment> \<open>\<^verbatim>\<open>.content-section\<close>\<close>
  "sel_content_section e = has_class ''content-section'' e"

definition sel_active_section :: "element \<Rightarrow> bool" where
  \<comment> \<open>\<^verbatim>\<open>.content-section.active\<close>\<close>
  "sel_active_section e = (has_class ''content-section'' e \<and> has_class ''active'' e)"

definition sel_messages_container :: "element \<Rightarrow> bool" where
  \<comment> \<open>\<^verbatim>\<open>.messages-container\<close>\<close>
  "sel_messages_container e = has_class ''messages-container'' e"

definition sel_data_section :: "string \<Rightarrow> element \<Rightarrow> bool" where
  \<comment> \<open>\<^verbatim>\<open>[data-section="s"]\<close>\<close>
  "sel_data_section s e = (data_section e = Some s)"

definition querySelector :: "(element \<Rightarrow> bool) \<Rightarrow> page \<Rightarrow> nat option" where
  "querySelector sel p = first_index sel (elems p)"

definition querySelectorAll :: "(element \<Rightarrow> bool) \<Rightarrow> page \<Rightarrow> nat list" where
  "querySelectorAll sel p = all_indices sel (elems p)"

definition getElementById :: "page \<Rightarrow> string \<Rightarrow> nat option" where
  \<comment> \<open>no element has the empty string as its ID\<close>
  "getElementById p s = (if s = [] then None else first_index (\<lambda>e. el_id e = s) (elems p))"

text \<open>
  Line 24 pastes the id into the selector text \<^verbatim>\<open>[data-section="..."]\<close>. The text is the
  attribute selector for exactly that value when the id holds no character that ends,
  escapes or is replaced in a CSS string: the double quote, the backslash, a line break
  (LF, CR, FF) or NUL. With such a character in the id the text is another selector (an
  escape is resolved, a quote ends the value and the rest of the id is read as selector
  syntax) or none at all; what \<^verbatim>\<open>querySelector\<close> makes of it is the engine's answer.
\<close>

definition selector_safe :: "string \<Rightarrow> bool" where
  "selector_safe s =
     list_all (\<lambda>c. c \<notin> set [CHR 0x22, CHR 0x5C, CHR 0x0A, CHR 0x0D, CHR 0x0C, CHR 0x00]) s"

definition selector_text :: "string \<Rightarrow> string" where
  \<comment> \<open>the template literal of line 24\<close>
  "selector_text sectionId = ''[data-section='' @ [CHR 0x22] @ sectionId @ [CHR 0x22] @ '']''"

definition querySelector_text :: "string \<Rightarrow> page \<Rightarrow> js_error + nat option" where
  \<comment> \<open>\<^verbatim>\<open>document.querySelector(text)\<close>, the first match in tree order, by the engine\<close>
  "querySelector_text text p =
     (case selector_engine p text of
        None \<Rightarrow> Inl SyntaxError
      | Some matches \<Rightarrow> Inr (find (matches (elems p)) [0..<length (elems p)]))"

definition activeItem :: "string \<Rightarrow> page \<Rightarrow> js_error + nat option" where
  \<comment> \<open>line 24\<close>
  "activeItem sectionId p =
     (if selector_safe sectionId then Inr (querySelector (sel_data_section sectionId) p)
      else querySelector_text (selector_text sectionId) p)"

text \<open>Lines 4 to 6: the node lists and the label element, taken once at load.\<close>

definition capture :: "page \<Rightarrow> env" where
  "capture p =
     \<lparr>channelItems = querySelectorAll sel_channel_item p,
      sections = querySelectorAll sel_content_section p,
      channelNameEl = getElementById p ''channel-name''\<rparr>"

subsection \<open>The channel name table\<close>

text \<open>
  \<^verbatim>\<open>channelNames\<close> is an object literal, so \<^verbatim>\<open>channelNames[sectionId]\<close> also finds what
  \<^verbatim>\<open>Object.prototype\<close> gives every object; all of those values are truthy. \<open>None\<close> is
  \<^verbatim>\<open>undefined\<close>.
\<close>

definition object_prototype_members :: "string list" where
  "object_prototype_members =
     [''constructor'', ''hasOwnProperty'', ''isPrototypeOf'', ''propertyIsEnumerable'',
      ''toLocaleString'', ''toString'', ''valueOf'', ''__proto__'', ''__defineGetter__'',
      ''__defineSetter__'', ''__lookupGetter__'', ''__lookupSetter__'']"

definition channelNames :: "string \<Rightarrow> dom_text option" where
  "channelNames k =
     (if k = ''hero'' then Some (Text ''# welcome'')
      else if k = ''demo'' then Some (Text ''# live-demo'')
      else if k = ''features'' then Some (Text ''# features'')
      else if k = ''how-it-works'' then Some (Text ''# how-it-works'')
      else if k = ''setup'' then Some (Text ''# quick-setup'')
      else if k \<in> set object_prototype_members then Some (NativeText k)
      else None)"

subsection \<open>Writes\<close>

definition classList_remove :: "string \<Rightarrow> element \<Rightarrow> element" where
  "classList_remove c e = e\<lparr>classList := removeAll c (classList e)\<rparr>"

definition classList_add :: "string \<Rightarrow> element \<Rightarrow> element" where
  "classList_add c e =
     e\<lparr>classList := (if c \<in> set (classList e) then classList e else classList e @ [c])\<rparr>"

definition update_elem :: "nat \<Rightarrow> (element \<Rightarrow> element) \<Rightarrow> page \<Rightarrow> page" where
  "update_elem i f p = p\<lparr>elems := (elems p)[i := f (elems p ! i)]\<rparr>"

definition forEach :: "nat list \<Rightarrow> (element \<Rightarrow> element) \<Rightarrow> page \<Rightarrow> page" where
  "forEach items f p = fold (\<lambda>i. update_elem i f) items p"

text \<open>
  \<^verbatim>\<open>history.pushState(null, null, '#' + id)\<close> has the URL parser read \<^verbatim>\<open>#id\<close> against the
  URL of the document (which is taken to have no \<^verbatim>\<open>base\<close> element and a URL that a script
  may rewrite), so the new URL is the current one with another fragment. The parser strips
  the C0 control characters and spaces at the end of its input, drops every tab and line
  break, and stores each remaining character of the fragment as it is or, if it is in the
  fragment percent-encode set (the C0 controls, the space, the double quote, the less-than
  and greater-than signs, the backtick and every code point above the tilde), as the
  percent-encoded bytes of its UTF-8 form.
\<close>

definition c0_control_or_space :: "char \<Rightarrow> bool" where
  "c0_control_or_space c = ((of_char c :: nat) \<le> 32)"

definition ascii_tab_or_newline :: "char \<Rightarrow> bool" where
  "ascii_tab_or_newline c = (c \<in> set [CHR 0x09, CHR 0x0A, CHR 0x0D])"

definition fragment_percent_encode_set :: "char \<Rightarrow> bool" where
  "fragment_percent_encode_set c =
     ((of_char c :: nat) \<le> 31 \<or> 126 < (of_char c :: nat) \<or>
      c \<in> set [CHR 0x20, CHR 0x22, CHR 0x3C, CHR 0x3E, CHR 0x60])"

definition utf8_encode :: "char \<Rightarrow> nat list" where
  \<comment> \<open>the bytes of a code point below \<^verbatim>\<open>U+0100\<close>\<close>
  "utf8_encode c =
     (if (of_char c :: nat) < 128 then [of_char c]
      else [192 + of_char c div 64, 128 + of_char c mod 64])"

definition percent_encode :: "nat \<Rightarrow> string" where
  "percent_encode b =
     [CHR ''%'', ''0123456789ABCDEF'' ! (b div 16), ''0123456789ABCDEF'' ! (b mod 16)]"

definition utf8_percent_encode :: "char \<Rightarrow> string" where
  "utf8_percent_encode c =
     (if fragment_percent_encode_set c then concat (map percent_encode (utf8_encode c)) else [c])"

definition parsed_fragment :: "string \<Rightarrow> string" where
  \<comment> \<open>the fragment of the URL that the parser makes of \<^verbatim>\<open>#\<close> followed by the id\<close>
  "parsed_fragment sectionId =
     concat (map utf8_percent_encode
       (filter (\<lambda>c. \<not> ascii_tab_or_newline c)
          (rev (dropWhile c0_control_or_space (rev sectionId)))))"

text \<open>
  The entry that was current becomes a prior one. By the History API the call neither
  loads nor scrolls nor fires \<^verbatim>\<open>hashchange\<close>.
\<close>

definition pushState :: "string \<Rightarrow> page \<Rightarrow> page" where
  "pushState sectionId p =
     p\<lparr>prior_entries := prior_entries p @ [url_fragment p],
       url_fragment := parsed_fragment sectionId\<rparr>"

definition location_hash :: "page \<Rightarrow> string" where
  \<comment> \<open>\<^verbatim>\<open>window.location.hash\<close>: empty for an empty fragment, else \<^verbatim>\<open>#\<close> and the fragment\<close>
  "location_hash p = (if url_fragment p = [] then [] else CHR ''#'' # url_fragment p)"

section \<open>Section switching (lines 18 to 44)\<close>

text \<open>
  A call either completes or throws; what it wrote before throwing stays written, so the
  result is the completion together with the page.
\<close>

definition update_header :: "env \<Rightarrow> string \<Rightarrow> page \<Rightarrow> completion \<times> page" where
  \<comment> \<open>lines 37 to 43\<close>
  "update_header env sectionId p =
     (case channelNames sectionId of
        None \<Rightarrow> (Normal, pushState sectionId p)
      | Some title \<Rightarrow>
          (case channelNameEl env of
             None \<Rightarrow> (Throw TypeError, p)
           | Some l \<Rightarrow>
               (Normal, pushState sectionId (update_elem l (\<lambda>e. e\<lparr>textContent := title\<rparr>) p))))"

definition switchSection :: "env \<Rightarrow> string \<Rightarrow> page \<Rightarrow> completion \<times> page" where
  "switchSection env sectionId p =
     (let p1 = forEach (channelItems env) (classList_remove ''active'') p;
          p2 = forEach (sections env) (classList_remove ''active'') p1
      in case activeItem sectionId p2 of
           Inl e \<Rightarrow> (Throw e, p2)
         | Inr found \<Rightarrow>
             let p3 = (case found of
                         None \<Rightarrow> p2
                       | Some a \<Rightarrow> update_elem a (classList_add ''active'') p2)
             in (case getElementById p3 sectionId of
                   None \<Rightarrow> update_header env sectionId p3
                 | Some s \<Rightarrow>
                     let p4 = update_elem s (classList_add ''active'') p3
                     in (case querySelector sel_messages_container p4 of
                           None \<Rightarrow> (Throw TypeError, p4)
                         | Some m \<Rightarrow>
                             update_header env sectionId
                               (update_elem m (\<lambda>e. e\<lparr>scrollTop := 0\<rparr>) p4))))"

section \<open>Hash navigation (lines 56 to 69)\<close>

definition handleHashChange :: "env \<Rightarrow> page \<Rightarrow> completion \<times> page" where
  "handleHashChange env p =
     (let hash = drop 1 (location_hash p)
      in if hash \<noteq> [] \<and> getElementById p hash \<noteq> None then switchSection env hash p
         else (Normal, p))"

definition initial_load :: "env \<Rightarrow> page \<Rightarrow> completion \<times> page" where
  \<comment> \<open>lines 67 to 69\<close>
  "initial_load env p = (if location_hash p \<noteq> [] then handleHashChange env p else (Normal, p))"

section \<open>Keyboard navigation (lines 241 to 259)\<close>

text \<open>
  The indices are small integers, on which the script's double arithmetic is exact.
  \<^verbatim>\<open>%\<close> takes the sign of the dividend and is \<^verbatim>\<open>NaN\<close> (\<open>None\<close>) for a zero divisor; a
  negative zero reads an array like zero does.
\<close>

definition js_rem :: "int \<Rightarrow> int \<Rightarrow> int option" where
  "js_rem a b = (if b = 0 then None else Some (sgn a * (\<bar>a\<bar> mod \<bar>b\<bar>)))"

fun index_from :: "nat list \<Rightarrow> nat \<Rightarrow> int \<Rightarrow> int" where
  "index_from [] e k = - 1"
| "index_from (x # xs) e k = (if x = e then k else index_from xs e (k + 1))"

definition indexOf :: "nat list \<Rightarrow> nat option \<Rightarrow> int" where
  \<comment> \<open>\<^verbatim>\<open>null\<close> is no element of the array\<close>
  "indexOf xs x = (case x of None \<Rightarrow> - 1 | Some e \<Rightarrow> index_from xs e 0)"

definition array_get :: "nat list \<Rightarrow> int option \<Rightarrow> nat option" where
  \<comment> \<open>\<^verbatim>\<open>allSections[nextIndex]\<close>: \<^verbatim>\<open>undefined\<close> off the array and at \<^verbatim>\<open>NaN\<close>\<close>
  "array_get xs k =
     (case k of
        None \<Rightarrow> None
      | Some j \<Rightarrow> if 0 \<le> j \<and> j < int (length xs) then Some (xs ! nat j) else None)"

definition currentIndex :: "env \<Rightarrow> page \<Rightarrow> int" where
  \<comment> \<open>lines 243 to 245\<close>
  "currentIndex env p = indexOf (sections env) (querySelector sel_active_section p)"

definition nextIndex :: "string \<Rightarrow> int \<Rightarrow> int \<Rightarrow> int option" where
  \<comment> \<open>lines 247 to 252\<close>
  "nextIndex key i n = (if key = ''ArrowLeft'' then js_rem (i - 1 + n) n else js_rem (i + 1) n)"

definition keydown_navigation :: "env \<Rightarrow> string \<Rightarrow> page \<Rightarrow> completion \<times> page" where
  "keydown_navigation env key p =
     (if key = ''ArrowLeft'' \<or> key = ''ArrowRight'' then
        (let allSections = sections env
         in case array_get allSections
                   (nextIndex key (currentIndex env p) (int (length allSections))) of
              None \<Rightarrow> (Normal, p)
            | Some nextSection \<Rightarrow> switchSection env (el_id (elems p ! nextSection)) p)
      else (Normal, p))"

text \<open>
  An exception of a listener is reported by the event loop and goes no further; the page
  as the listener left it is the page the next event finds.
\<close>

definition press :: "env \<Rightarrow> string \<Rightarrow> page \<Rightarrow> page" where
  "press env key p = snd (keydown_navigation env key p)"

section \<open>The key sequence matcher (lines 150 to 165)\<close>

definition konamiSequence :: "string list" where
  "konamiSequence =
     [''ArrowUp'', ''ArrowUp'', ''ArrowDown'', ''ArrowDown'', ''ArrowLeft'', ''ArrowRight'',
      ''ArrowLeft'', ''ArrowRight'', ''b'', ''a'']"

definition slice_last :: "nat \<Rightarrow> 'a list \<Rightarrow> 'a list" where
  \<comment> \<open>\<^verbatim>\<open>xs.slice(-n)\<close>\<close>
  "slice_last n xs = drop (length xs - n) xs"

definition join :: "string list \<Rightarrow> string" where
  \<comment> \<open>\<^verbatim>\<open>xs.join('')\<close> on an array of strings\<close>
  "join xs = concat xs"

text \<open>
  One \<^verbatim>\<open>keydown\<close>: the new buffer, and whether the animation was started (line 160; the
  timer that stops it again is not modelled).
\<close>

definition keydown_konami :: "string \<Rightarrow> string list \<Rightarrow> bool \<times> string list" where
  "keydown_konami key konamiCode =
     (let code = slice_last 10 (konamiCode @ [key])
      in (join code = join konamiSequence, code))"

text \<open>A stream of key presses, one event after the other: which of them started the
  animation, and the buffer they leave.\<close>

fun konami_fired :: "string list \<Rightarrow> string list \<Rightarrow> bool list" where
  "konami_fired [] code = []"
| "konami_fired (key # keys) code =
     fst (keydown_konami key code) # konami_fired keys (snd (keydown_konami key code))"

fun konami_buffer :: "string list \<Rightarrow> string list \<Rightarrow> string list" where
  "konami_buffer [] code = code"
| "konami_buffer (key # keys) code = konami_buffer keys (snd (keydown_konami key code))"

section \<open>Active markers\<close>

definition active_items :: "env \<Rightarrow> page \<Rightarrow> nat list" where
  "active_items env p = filter (\<lambda>i. has_class ''active'' (elems p ! i)) (channelItems env)"

definition active_sections :: "env \<Rightarrow> page \<Rightarrow> nat list" where
  "active_sections env p = filter (\<lambda>i. has_class ''active'' (elems p ! i)) (sections env)"

section \<open>What the statements below speak about\<close>

subsection \<open>Sections and their ids\<close>

text \<open>
  The specification's Sections are the content panels of the node list \<open>sections\<close>, its
  NavigationItems the elements of \<open>channelItems\<close>. The ids of the Sections, in the order
  of the node list:
\<close>

definition section_ids :: "env \<Rightarrow> page \<Rightarrow> string list" where
  "section_ids env p = map (\<lambda>t. el_id (elems p ! t)) (sections env)"


text \<open>
  The data model gives every Section a unique id. For a panel \<open>t\<close> this is: its id can be
  pasted into a selector, the document finds \<open>t\<close> itself for it (so the id is not empty and
  no earlier element has it), and the panel is no target of the attribute lookup.
\<close>

definition section_ok :: "page \<Rightarrow> nat \<Rightarrow> bool" where
  "section_ok p t =
     (selector_safe (el_id (elems p ! t)) \<and>
      getElementById p (el_id (elems p ! t)) = Some t \<and>
      data_section (elems p ! t) = None)"

definition wf_sections :: "page \<Rightarrow> bool" where
  "wf_sections p = list_all (section_ok p) (sections (capture p))"

text \<open>
  The index the specification gives for a key press: \<open>(i - 1 + N) mod N\<close> for left and
  \<open>(i + 1) mod N\<close> for right, with the mathematical \<open>mod\<close>. The script's own computation is
  \<open>nextIndex\<close> above.
\<close>

definition wrapped_index :: "string \<Rightarrow> int \<Rightarrow> int \<Rightarrow> int" where
  "wrapped_index key i n = (if key = ''ArrowLeft'' then (i - 1 + n) mod n else (i + 1) mod n)"

subsection \<open>Keys\<close>

text \<open>
  In the text of the sequence, \<^verbatim>\<open>ArrowUpArrowUp...ArrowRightba\<close>, one key of the
  sequence ends and the next one starts at the character pairs \<^verbatim>\<open>pA\<close>, \<^verbatim>\<open>nA\<close>, \<^verbatim>\<open>tA\<close>,
  \<^verbatim>\<open>tb\<close> and \<^verbatim>\<open>ba\<close>. A key is plain when none of these pairs occurs in it. The values
  that the keys of a keyboard have are plain: the single characters, and the names of the
  UI Events key table, such as \<^verbatim>\<open>Enter\<close>, \<^verbatim>\<open>Shift\<close>, \<^verbatim>\<open>Escape\<close>, \<^verbatim>\<open>PageDown\<close> and the
  four arrow keys of the sequence. A key with one of the pairs in it, such as \<^verbatim>\<open>ba\<close>,
  comes only with an event that a script has made.
\<close>

definition boundary_pairs :: "(char \<times> char) list" where
  "boundary_pairs =
     [(CHR ''p'', CHR ''A''), (CHR ''n'', CHR ''A''), (CHR ''t'', CHR ''A''),
      (CHR ''t'', CHR ''b''), (CHR ''b'', CHR ''a'')]"

definition plain_key :: "string \<Rightarrow> bool" where
  "plain_key w = list_all (\<lambda>pr. pr \<notin> set boundary_pairs) (zip w (tl w))"

text \<open>For each key of a stream typed into the empty buffer: whether the window of the at
  most ten most recent keys, this one included, is the designated sequence.\<close>

definition window_matches :: "string list \<Rightarrow> bool list" where
  "window_matches keys =
     map (\<lambda>j. slice_last 10 (take (Suc j) keys) = konamiSequence) [0..<length keys]"

subsection \<open>Notions used in the proofs only\<close>

text \<open>What the script never changes of an element: its id, its \<^verbatim>\<open>data-section\<close> attribute and
  its classes other than \<^verbatim>\<open>active\<close>.\<close>

definition stable_classes :: "element \<Rightarrow> string list" where
  "stable_classes e = filter (\<lambda>c. c \<noteq> ''active'') (classList e)"

definition same_structure :: "page \<Rightarrow> page \<Rightarrow> bool" where
  "same_structure p q =
     (map el_id (elems q) = map el_id (elems p) \<and>
      map data_section (elems q) = map data_section (elems p) \<and>
      map stable_classes (elems q) = map stable_classes (elems p))"

text \<open>The page after lines 20 and 21, and after lines 24 to 32 when line 24 has found
  \<open>found\<close>.\<close>

definition cleared :: "env \<Rightarrow> page \<Rightarrow> page" where
  "cleared env p =
     forEach (sections env) (classList_remove ''active'')
       (forEach (channelItems env) (classList_remove ''active'') p)"

definition marked :: "env \<Rightarrow> nat option \<Rightarrow> string \<Rightarrow> page \<Rightarrow> page" where
  "marked env found s p =
     (let p3 = (case found of
                  None \<Rightarrow> cleared env p
                | Some a \<Rightarrow> update_elem a (classList_add ''active'') (cleared env p))
      in case getElementById p s of
           None \<Rightarrow> p3
         | Some t \<Rightarrow> update_elem t (classList_add ''active'') p3)"

text \<open>The characters \<^verbatim>\<open>A\<close>, \<^verbatim>\<open>a\<close> and \<^verbatim>\<open>b\<close> mark the ten keys of the sequence: each key
  starts with one of them and holds no other.\<close>

definition marker :: "char \<Rightarrow> bool" where
  "marker c = (c \<in> set ''Aab'')"

definition marker_count :: "string \<Rightarrow> nat" where
  "marker_count w = length (filter marker w)"

definition headed :: "string \<Rightarrow> bool" where
  "headed w = (w \<noteq> [] \<and> marker (hd w) \<and> list_all (\<lambda>c. \<not> marker c) (tl w))"

section \<open>Sample pages\<close>

text \<open>
  The sample pages are given an engine that answers no text. Every id that a statement
  about them passes to line 24 is free of the characters named there, so the engine is
  never asked.
\<close>

definition silent_engine :: "string \<Rightarrow> (element list \<Rightarrow> nat \<Rightarrow> bool) option" where
  "silent_engine text = None"

text \<open>
  A page as the DOM contract describes it, with three of the five sections of the channel
  name table: three navigation items, the label, the scroll container and three panels,
  the first section active and no fragment in the address bar.
\<close>

definition nav_item :: "string \<Rightarrow> bool \<Rightarrow> element" where
  "nav_item s active =
     \<lparr>el_id = [],
      classList = (if active then [''channel-item'', ''active''] else [''channel-item'']),
      data_section = Some s, scrollTop = 0, textContent = Text s\<rparr>"

definition panel :: "string \<Rightarrow> bool \<Rightarrow> element" where
  "panel s active =
     \<lparr>el_id = s,
      classList = (if active then [''content-section'', ''active''] else [''content-section'']),
      data_section = None, scrollTop = 0, textContent = Text []\<rparr>"

definition label :: element where
  "label =
     \<lparr>el_id = ''channel-name'', classList = [], data_section = None, scrollTop = 0,
      textContent = Text ''# welcome''\<rparr>"

definition container :: element where
  "container =
     \<lparr>el_id = [], classList = [''messages-container''], data_section = None, scrollTop = 120,
      textContent = Text []\<rparr>"

definition sample_page :: page where
  "sample_page =
     \<lparr>elems = [nav_item ''hero'' True, nav_item ''demo'' False, nav_item ''features'' False,
               label, container,
               panel ''hero'' True, panel ''demo'' False, panel ''features'' False],
      prior_entries = [], url_fragment = [], selector_engine = silent_engine\<rparr>"

text \<open>The same page with nothing marked active.\<close>

definition idle_page :: page where
  "idle_page =
     \<lparr>elems = [nav_item ''hero'' False, nav_item ''demo'' False, nav_item ''features'' False,
               label, container,
               panel ''hero'' False, panel ''demo'' False, panel ''features'' False],
      prior_entries = [], url_fragment = [], selector_engine = silent_engine\<rparr>"

text \<open>The sample page opened at \<^verbatim>\<open>#channel-name\<close>, the id of the label.\<close>

definition page_at_label :: page where
  "page_at_label = sample_page\<lparr>url_fragment := ''channel-name''\<rparr>"

text \<open>Pages that lack the scroll container, or the label.\<close>

definition page_without_container :: page where
  "page_without_container =
     \<lparr>elems = [nav_item ''hero'' False, label, panel ''hero'' False],
      prior_entries = [], url_fragment = [], selector_engine = silent_engine\<rparr>"

definition page_without_label :: page where
  "page_without_label =
     \<lparr>elems = [nav_item ''hero'' False, container, panel ''hero'' False],
      prior_entries = [], url_fragment = [], selector_engine = silent_engine\<rparr>"

text \<open>A page with no content panel at all.\<close>

definition page_without_sections :: page where
  "page_without_sections =
     \<lparr>elems = [label, container], prior_entries = [], url_fragment = [],
      selector_engine = silent_engine\<rparr>"

text \<open>
  The sample page with a button ahead of the navigation: an element of the class
  \<^verbatim>\<open>btn-primary\<close> (line 238) that names the section it leads to in a \<^verbatim>\<open>data-section\<close>
  attribute, like the navigation items do.
\<close>

definition button :: "string \<Rightarrow> element" where
  "button s =
     \<lparr>el_id = [], classList = [''btn-primary''], data_section = Some s, scrollTop = 0,
      textContent = Text ''Try it''\<rparr>"

definition page_with_button :: page where
  "page_with_button =
     \<lparr>elems = [button ''demo'',
               nav_item ''hero'' True, nav_item ''demo'' False, nav_item ''features'' False,
               label, container,
               panel ''hero'' True, panel ''demo'' False, panel ''features'' False],
      prior_entries = [], url_fragment = [], selector_engine = silent_engine\<rparr>"


section \<open>Lists and queries\<close>

lemma first_index_SomeD:
  "first_index P xs = Some i \<Longrightarrow> i < length xs \<and> P (xs ! i) \<and> (\<forall>j<i. \<not> P (xs ! j))"
proof (induction xs arbitrary: i)
  case Nil
  then show ?case by simp
next
  case (Cons x xs)
  show ?case
  proof (cases "P x")
    case True
    with Cons.prems show ?thesis by simp
  next
    case False
    with Cons.prems obtain k where k: "first_index P xs = Some k" "i = Suc k"
      by auto
    from Cons.IH[OF k(1)] False k(2) show ?thesis
      by (auto simp: nth_Cons split: nat.splits)
  qed
qed


lemma first_index_cong_nth:
  "length ys = length xs \<Longrightarrow> (\<And>i. i < length xs \<Longrightarrow> Q (ys ! i) = P (xs ! i)) \<Longrightarrow>
     first_index Q ys = first_index P xs"
proof (induction xs arbitrary: ys)
  case Nil
  then show ?case by simp
next
  case (Cons x xs)
  then obtain y ys' where ys: "ys = y # ys'" by (cases ys) auto
  have h: "Q y = P x" using Cons.prems(2)[of 0] ys by simp
  have "first_index Q ys' = first_index P xs"
  proof (rule Cons.IH)
    show "length ys' = length xs" using Cons.prems(1) ys by simp
    fix i assume "i < length xs"
    then show "Q (ys' ! i) = P (xs ! i)" using Cons.prems(2)[of "Suc i"] ys by simp
  qed
  with h ys show ?case by simp
qed


lemma set_all_indices: "set (all_indices P xs) = {i. i < length xs \<and> P (xs ! i)}"
  by (auto simp: all_indices_def)

lemma distinct_all_indices: "distinct (all_indices P xs)"
  by (simp add: all_indices_def)

lemma all_indices_cong_nth:
  "length ys = length xs \<Longrightarrow> (\<And>i. i < length xs \<Longrightarrow> Q (ys ! i) = P (xs ! i)) \<Longrightarrow>
     all_indices Q ys = all_indices P xs"
  unfolding all_indices_def by (auto intro: filter_cong)

lemma has_class_stable:
  "c \<noteq> ''active'' \<Longrightarrow> has_class c e = (c \<in> set (stable_classes e))"
  by (auto simp: has_class_def stable_classes_def)

lemma same_structure_refl: "same_structure p p"
  by (simp add: same_structure_def)

lemma same_structure_trans: "same_structure p q \<Longrightarrow> same_structure q r \<Longrightarrow> same_structure p r"
  by (simp add: same_structure_def)

lemma same_structure_length: "same_structure p q \<Longrightarrow> length (elems q) = length (elems p)"
  unfolding same_structure_def using map_eq_imp_length_eq by blast

lemma same_structure_nth:
  assumes "same_structure p q" "i < length (elems p)"
  shows "el_id (elems q ! i) = el_id (elems p ! i)"
    and "data_section (elems q ! i) = data_section (elems p ! i)"
    and "stable_classes (elems q ! i) = stable_classes (elems p ! i)"
proof -
  have len: "i < length (elems q)" using assms same_structure_length by simp
  have "map el_id (elems q) ! i = map el_id (elems p) ! i"
    using assms(1) by (simp add: same_structure_def)
  then show "el_id (elems q ! i) = el_id (elems p ! i)" using len assms(2) by simp
  have "map data_section (elems q) ! i = map data_section (elems p) ! i"
    using assms(1) by (simp add: same_structure_def)
  then show "data_section (elems q ! i) = data_section (elems p ! i)" using len assms(2) by simp
  have "map stable_classes (elems q) ! i = map stable_classes (elems p) ! i"
    using assms(1) by (simp add: same_structure_def)
  then show "stable_classes (elems q ! i) = stable_classes (elems p ! i)" using len assms(2) by simp
qed

lemma same_structure_has_class:
  "same_structure p q \<Longrightarrow> i < length (elems p) \<Longrightarrow> c \<noteq> ''active'' \<Longrightarrow>
     has_class c (elems q ! i) = has_class c (elems p ! i)"
  by (simp add: has_class_stable same_structure_nth(3))

lemma same_structure_getElementById:
  assumes "same_structure p q"
  shows "getElementById q s = getElementById p s"
  unfolding getElementById_def
  using first_index_cong_nth[of "elems q" "elems p" "\<lambda>e. el_id e = s" "\<lambda>e. el_id e = s"]
    same_structure_length[OF assms] same_structure_nth(1)[OF assms]
  by simp

lemma same_structure_data_section:
  assumes "same_structure p q"
  shows "querySelector (sel_data_section s) q = querySelector (sel_data_section s) p"
  unfolding querySelector_def
  by (rule first_index_cong_nth)
     (simp_all add: same_structure_length[OF assms] same_structure_nth(2)[OF assms] sel_data_section_def)

lemma same_structure_messages_container:
  assumes "same_structure p q"
  shows "querySelector sel_messages_container q = querySelector sel_messages_container p"
  unfolding querySelector_def
  by (rule first_index_cong_nth)
     (simp_all add: same_structure_length[OF assms] same_structure_has_class[OF assms] sel_messages_container_def)

lemma same_structure_content_sections:
  assumes "same_structure p q"
  shows "querySelectorAll sel_content_section q = querySelectorAll sel_content_section p"
  unfolding querySelectorAll_def
  by (rule all_indices_cong_nth)
     (simp_all add: same_structure_length[OF assms] same_structure_has_class[OF assms] sel_content_section_def)

lemma same_structure_channel_items:
  assumes "same_structure p q"
  shows "querySelectorAll sel_channel_item q = querySelectorAll sel_channel_item p"
  unfolding querySelectorAll_def
  by (rule all_indices_cong_nth)
     (simp_all add: same_structure_length[OF assms] same_structure_has_class[OF assms]
        same_structure_nth(2)[OF assms] sel_channel_item_def)

lemma same_structure_capture: "same_structure p q \<Longrightarrow> capture q = capture p"
  by (simp add: capture_def same_structure_getElementById same_structure_content_sections same_structure_channel_items)

section \<open>Single writes\<close>

lemma map_update_same: "g y = g (xs ! a) \<Longrightarrow> map g (xs[a := y]) = map g xs"
  by (induction xs arbitrary: a) (auto split: nat.splits)

lemma update_elem_length: "length (elems (update_elem a f p)) = length (elems p)"
  by (simp add: update_elem_def)

lemma update_elem_nth:
  "i < length (elems p) \<Longrightarrow>
     elems (update_elem a f p) ! i = (if i = a then f (elems p ! i) else elems p ! i)"
  by (simp add: update_elem_def nth_list_update)

lemma update_elem_history:
  "prior_entries (update_elem a f p) = prior_entries p"
  "url_fragment (update_elem a f p) = url_fragment p"
  by (simp_all add: update_elem_def)

lemma update_elem_same_structure:
  assumes "\<And>e. el_id (f e) = el_id e" "\<And>e. data_section (f e) = data_section e"
    "\<And>e. stable_classes (f e) = stable_classes e"
  shows "same_structure p (update_elem a f p)"
  unfolding same_structure_def update_elem_def using assms
  by (simp add: map_update_same)

lemma classList_remove_fields:
  "el_id (classList_remove c e) = el_id e"
  "data_section (classList_remove c e) = data_section e"
  "stable_classes (classList_remove ''active'' e) = stable_classes e"
  "has_class ''active'' (classList_remove ''active'' e) = False"
  by (auto simp: classList_remove_def stable_classes_def has_class_def removeAll_filter_not_eq intro: filter_cong)

lemma classList_add_fields:
  "el_id (classList_add c e) = el_id e"
  "data_section (classList_add c e) = data_section e"
  "stable_classes (classList_add ''active'' e) = stable_classes e"
  "has_class ''active'' (classList_add ''active'' e) = True"
  by (auto simp: classList_add_def stable_classes_def has_class_def)

lemma forEach_Cons: "forEach (x # xs) f p = forEach xs f (update_elem x f p)"
  by (simp add: forEach_def)

lemma forEach_Nil: "forEach [] f p = p"
  by (simp add: forEach_def)

lemma forEach_history:
  "prior_entries (forEach items f p) = prior_entries p \<and> url_fragment (forEach items f p) = url_fragment p"
  by (induction items arbitrary: p) (simp_all add: forEach_Nil forEach_Cons update_elem_history)

lemma forEach_remove_same_structure:
  "same_structure p (forEach items (classList_remove ''active'') p)"
proof (induction items arbitrary: p)
  case Nil
  show ?case by (simp add: forEach_Nil same_structure_refl)
next
  case (Cons x xs)
  have "same_structure p (update_elem x (classList_remove ''active'') p)"
    by (rule update_elem_same_structure) (simp_all add: classList_remove_fields)
  from same_structure_trans[OF this Cons.IH] show ?case by (simp add: forEach_Cons)
qed

lemma forEach_length: "length (elems (forEach items f p)) = length (elems p)"
  by (induction items arbitrary: p) (simp_all add: forEach_Nil forEach_Cons update_elem_length)

lemma forEach_remove_active:
  "i < length (elems p) \<Longrightarrow>
     has_class ''active'' (elems (forEach items (classList_remove ''active'') p) ! i) =
       (i \<notin> set items \<and> has_class ''active'' (elems p ! i))"
proof (induction items arbitrary: p)
  case Nil
  show ?case by (simp add: forEach_Nil)
next
  case (Cons x xs)
  let ?q = "update_elem x (classList_remove ''active'') p"
  have "i < length (elems ?q)" using Cons.prems by (simp add: update_elem_length)
  from Cons.IH[OF this] show ?case
    using Cons.prems by (auto simp: forEach_Cons update_elem_nth classList_remove_fields)
qed

lemma add_active_same_structure:
  "same_structure p (update_elem a (classList_add ''active'') p)"
  by (rule update_elem_same_structure) (simp_all add: classList_add_fields)

lemma add_active_nth:
  "i < length (elems p) \<Longrightarrow>
     has_class ''active'' (elems (update_elem a (classList_add ''active'') p) ! i) =
       (i = a \<or> has_class ''active'' (elems p ! i))"
  by (simp add: update_elem_nth classList_add_fields)

lemma set_scrollTop_same_structure:
  "same_structure p (update_elem m (\<lambda>e. e\<lparr>scrollTop := v\<rparr>) p)"
  by (rule update_elem_same_structure) (simp_all add: stable_classes_def)

lemma set_textContent_same_structure:
  "same_structure p (update_elem m (\<lambda>e. e\<lparr>textContent := v\<rparr>) p)"
  by (rule update_elem_same_structure) (simp_all add: stable_classes_def)

lemma set_scrollTop_classes:
  "map classList (elems (update_elem m (\<lambda>e. e\<lparr>scrollTop := v\<rparr>) p)) = map classList (elems p)"
  by (simp add: update_elem_def map_update_same)

lemma set_textContent_classes:
  "map classList (elems (update_elem m (\<lambda>e. e\<lparr>textContent := v\<rparr>) p)) = map classList (elems p)"
  by (simp add: update_elem_def map_update_same)

lemma pushState_elems: "elems (pushState s p) = elems p"
  by (simp add: pushState_def)

lemma update_header_classes:
  "map classList (elems (snd (update_header env s p))) = map classList (elems p)"
  by (simp add: update_header_def pushState_elems set_textContent_classes split: option.splits)

lemma same_structure_pushState: "same_structure p (pushState s p)"
  by (simp add: same_structure_def pushState_def)

lemma update_header_same_structure: "same_structure p (snd (update_header env s p))"
proof -
  have "same_structure p (pushState s (update_elem l (\<lambda>e. e\<lparr>textContent := v\<rparr>) p))" for l v
    using same_structure_trans[OF set_textContent_same_structure same_structure_pushState] .
  then show ?thesis
    by (simp add: update_header_def same_structure_refl same_structure_pushState split: option.splits)
qed

lemma classes_has_class:
  assumes "map classList (elems q) = map classList (elems p)" "i < length (elems p)"
  shows "has_class c (elems q ! i) = has_class c (elems p ! i)"
proof -
  have "length (elems q) = length (elems p)" using assms(1) map_eq_imp_length_eq by blast
  moreover have "map classList (elems q) ! i = map classList (elems p) ! i" using assms(1) by simp
  ultimately show ?thesis using assms(2) by (simp add: has_class_def)
qed

section \<open>What a call of switchSection does\<close>

lemma cleared_same_structure: "same_structure p (cleared env p)"
  unfolding cleared_def
  using same_structure_trans[OF forEach_remove_same_structure forEach_remove_same_structure] .

lemma cleared_active:
  "i < length (elems p) \<Longrightarrow>
     has_class ''active'' (elems (cleared env p) ! i) =
       (i \<notin> set (channelItems env) \<and> i \<notin> set (sections env) \<and> has_class ''active'' (elems p ! i))"
  unfolding cleared_def by (auto simp: forEach_remove_active forEach_length)

lemma cleared_history:
  "prior_entries (cleared env p) = prior_entries p" "url_fragment (cleared env p) = url_fragment p"
  by (simp_all add: cleared_def forEach_history)

lemma marked_same_structure: "same_structure p (marked env found s p)"
proof -
  let ?c = "cleared env p"
  let ?p3 = "case found of None \<Rightarrow> ?c
             | Some a \<Rightarrow> update_elem a (classList_add ''active'') ?c"
  have 3: "same_structure p ?p3"
    using cleared_same_structure same_structure_trans[OF cleared_same_structure add_active_same_structure]
    by (simp split: option.splits)
  have "same_structure p (update_elem t (classList_add ''active'') ?p3)" for t
    using same_structure_trans[OF 3 add_active_same_structure] .
  with 3 show ?thesis by (simp add: marked_def Let_def split: option.splits)
qed

lemma marked_history:
  "prior_entries (marked env found s p) = prior_entries p"
  "url_fragment (marked env found s p) = url_fragment p"
  by (simp_all add: marked_def Let_def update_elem_history cleared_history split: option.splits)

lemma marked_active:
  assumes "i < length (elems p)"
  shows "has_class ''active'' (elems (marked env found s p) ! i) =
       (found = Some i \<or> getElementById p s = Some i \<or>
        (i \<notin> set (channelItems env) \<and> i \<notin> set (sections env) \<and> has_class ''active'' (elems p ! i)))"
proof -
  have len: "i < length (elems (cleared env p))"
    using assms same_structure_length[OF cleared_same_structure] by simp
  have len': "i < length (elems (update_elem a (classList_add ''active'') (cleared env p)))" for a
    using len by (simp add: update_elem_length)
  show ?thesis
    using assms len len'
    by (auto simp: marked_def Let_def add_active_nth cleared_active split: option.splits)
qed

lemma activeItem_safe:
  "selector_safe s \<Longrightarrow> activeItem s (cleared env p) = Inr (querySelector (sel_data_section s) p)"
  by (simp add: activeItem_def same_structure_data_section[OF cleared_same_structure])

lemma activeItem_error: "activeItem s p = Inl e \<Longrightarrow> e = SyntaxError"
  by (auto simp: activeItem_def querySelector_text_def split: if_splits option.splits)

lemma switchSection_refused:
  "activeItem s (cleared env p) = Inl e \<Longrightarrow> switchSection env s p = (Throw e, cleared env p)"
  by (simp add: switchSection_def cleared_def Let_def)

lemma switchSection_found:
  assumes "activeItem s (cleared env p) = Inr found"
  shows "switchSection env s p =
     (case getElementById p s of
        None \<Rightarrow> update_header env s (marked env found s p)
      | Some t \<Rightarrow>
          (case querySelector sel_messages_container p of
             None \<Rightarrow> (Throw TypeError, marked env found s p)
           | Some m \<Rightarrow> update_header env s (update_elem m (\<lambda>e. e\<lparr>scrollTop := 0\<rparr>) (marked env found s p))))"
proof -
  let ?c = "cleared env p"
  let ?p3 = "case found of None \<Rightarrow> ?c
             | Some a \<Rightarrow> update_elem a (classList_add ''active'') ?c"
  have 3: "same_structure p ?p3"
    using cleared_same_structure same_structure_trans[OF cleared_same_structure add_active_same_structure]
    by (simp split: option.splits)
  have g: "getElementById ?p3 s = getElementById p s"
    by (rule same_structure_getElementById[OF 3])
  have m: "querySelector sel_messages_container (update_elem t (classList_add ''active'') ?p3)
             = querySelector sel_messages_container p" for t
    by (rule same_structure_messages_container[OF same_structure_trans[OF 3 add_active_same_structure]])
  have "switchSection env s p =
     (case getElementById ?p3 s of
        None \<Rightarrow> update_header env s ?p3
      | Some t \<Rightarrow>
          (case querySelector sel_messages_container (update_elem t (classList_add ''active'') ?p3) of
             None \<Rightarrow> (Throw TypeError, update_elem t (classList_add ''active'') ?p3)
           | Some m \<Rightarrow> update_header env s (update_elem m (\<lambda>e. e\<lparr>scrollTop := 0\<rparr>) (update_elem t (classList_add ''active'') ?p3))))"
    unfolding switchSection_def Let_def cleared_def using assms[unfolded cleared_def] by simp
  also have "\<dots> = (case getElementById p s of
        None \<Rightarrow> update_header env s (marked env found s p)
      | Some t \<Rightarrow>
          (case querySelector sel_messages_container p of
             None \<Rightarrow> (Throw TypeError, marked env found s p)
           | Some m \<Rightarrow> update_header env s (update_elem m (\<lambda>e. e\<lparr>scrollTop := 0\<rparr>) (marked env found s p))))"
    unfolding g m by (simp add: marked_def Let_def split: option.splits)
  finally show ?thesis .
qed

lemma switchSection_safe:
  assumes "selector_safe s"
  shows "switchSection env s p =
     (case getElementById p s of
        None \<Rightarrow> update_header env s (marked env (querySelector (sel_data_section s) p) s p)
      | Some t \<Rightarrow>
          (case querySelector sel_messages_container p of
             None \<Rightarrow> (Throw TypeError, marked env (querySelector (sel_data_section s) p) s p)
           | Some m \<Rightarrow>
               update_header env s
                 (update_elem m (\<lambda>e. e\<lparr>scrollTop := 0\<rparr>)
                    (marked env (querySelector (sel_data_section s) p) s p))))"
  by (rule switchSection_found[OF activeItem_safe[OF assms]])

lemma switchSection_classes:
  "activeItem s (cleared env p) = Inr found \<Longrightarrow>
     map classList (elems (snd (switchSection env s p))) = map classList (elems (marked env found s p))"
  by (simp add: switchSection_found update_header_classes set_scrollTop_classes split: option.splits)

lemma switchSection_same_structure: "same_structure p (snd (switchSection env s p))"
proof (cases "activeItem s (cleared env p)")
  case (Inl e)
  then show ?thesis by (simp add: switchSection_refused cleared_same_structure)
next
  case (Inr found)
  have a: "same_structure p (snd (update_header env s (marked env found s p)))"
    using same_structure_trans[OF marked_same_structure update_header_same_structure] .
  have b: "same_structure p (snd (update_header env s (update_elem m (\<lambda>e. e\<lparr>scrollTop := 0\<rparr>) (marked env found s p))))" for m
    using same_structure_trans[OF same_structure_trans[OF marked_same_structure set_scrollTop_same_structure] update_header_same_structure] .
  show ?thesis
    using a b by (simp add: switchSection_found[OF Inr] marked_same_structure split: option.splits)
qed

lemma switchSection_active_found:
  assumes "activeItem s (cleared env p) = Inr found" "i < length (elems p)"
  shows "has_class ''active'' (elems (snd (switchSection env s p)) ! i) =
       (found = Some i \<or> getElementById p s = Some i \<or>
        (i \<notin> set (channelItems env) \<and> i \<notin> set (sections env) \<and> has_class ''active'' (elems p ! i)))"
proof -
  have "i < length (elems (marked env found s p))"
    using assms(2) same_structure_length[OF marked_same_structure] by simp
  from classes_has_class[OF switchSection_classes[OF assms(1)] this]
  show ?thesis by (simp add: marked_active[OF assms(2)])
qed

lemma switchSection_active:
  assumes "selector_safe s" "i < length (elems p)"
  shows "has_class ''active'' (elems (snd (switchSection env s p)) ! i) =
       (querySelector (sel_data_section s) p = Some i \<or> getElementById p s = Some i \<or>
        (i \<notin> set (channelItems env) \<and> i \<notin> set (sections env) \<and> has_class ''active'' (elems p ! i)))"
  by (rule switchSection_active_found[OF activeItem_safe[OF assms(1)] assms(2)])

lemma switchSection_active_refused:
  assumes "activeItem s (cleared env p) = Inl e" "i < length (elems p)"
  shows "has_class ''active'' (elems (snd (switchSection env s p)) ! i) =
       (i \<notin> set (channelItems env) \<and> i \<notin> set (sections env) \<and> has_class ''active'' (elems p ! i))"
  by (simp add: switchSection_refused[OF assms(1)] cleared_active[OF assms(2)])

lemma update_header_history:
  "fst (update_header env s p) = Normal \<Longrightarrow>
     url_fragment (snd (update_header env s p)) = parsed_fragment s \<and>
     prior_entries (snd (update_header env s p)) = prior_entries p @ [url_fragment p]"
  by (auto simp: update_header_def pushState_def update_elem_history split: option.splits)

lemma update_header_completion:
  "fst (update_header env s p) =
     (if channelNames s \<noteq> None \<and> channelNameEl env = None then Throw TypeError else Normal)"
  by (auto simp: update_header_def split: option.splits)

lemma update_header_throw:
  "fst (update_header env s p) \<noteq> Normal \<Longrightarrow> snd (update_header env s p) = p"
  by (auto simp: update_header_def split: option.splits)

lemma switchSection_completion:
  "fst (switchSection env s p) =
     (case activeItem s (cleared env p) of
        Inl e \<Rightarrow> Throw e
      | Inr found \<Rightarrow>
          if getElementById p s \<noteq> None \<and> querySelector sel_messages_container p = None
            then Throw TypeError
          else if channelNames s \<noteq> None \<and> channelNameEl env = None then Throw TypeError
          else Normal)"
  by (cases "activeItem s (cleared env p)")
     (auto simp: switchSection_refused switchSection_found update_header_completion split: option.splits)


lemma switchSection_pushes:
  assumes "fst (switchSection env s p) = Normal"
  shows "url_fragment (snd (switchSection env s p)) = parsed_fragment s \<and>
     prior_entries (snd (switchSection env s p)) = prior_entries p @ [url_fragment p]"
proof (cases "activeItem s (cleared env p)")
  case (Inl e)
  with assms show ?thesis by (simp add: switchSection_refused)
next
  case (Inr found)
  show ?thesis
    using assms unfolding switchSection_found[OF Inr]
    by (auto simp: update_header_history update_elem_history marked_history split: option.splits)
qed

lemma switchSection_throw_history:
  assumes "fst (switchSection env s p) \<noteq> Normal"
  shows "url_fragment (snd (switchSection env s p)) = url_fragment p \<and>
     prior_entries (snd (switchSection env s p)) = prior_entries p"
proof (cases "activeItem s (cleared env p)")
  case (Inl e)
  then show ?thesis by (simp add: switchSection_refused cleared_history)
next
  case (Inr found)
  show ?thesis
    using assms unfolding switchSection_found[OF Inr]
    by (auto simp: update_header_throw update_elem_history marked_history split: option.splits)
qed

section \<open>Panels, the live query and the index\<close>

lemma sections_capture: "set (sections (capture p)) = {i. i < length (elems p) \<and> sel_content_section (elems p ! i)}"
  by (simp add: capture_def querySelectorAll_def set_all_indices)

lemma channelItems_capture: "set (channelItems (capture p)) = {i. i < length (elems p) \<and> sel_channel_item (elems p ! i)}"
  by (simp add: capture_def querySelectorAll_def set_all_indices)

lemma distinct_sections_capture: "distinct (sections (capture p))"
  by (simp add: capture_def querySelectorAll_def distinct_all_indices)

lemma distinct_channelItems_capture: "distinct (channelItems (capture p))"
  by (simp add: capture_def querySelectorAll_def distinct_all_indices)

lemma filter_eq_singleton:
  "distinct xs \<Longrightarrow> t \<in> set xs \<Longrightarrow> (\<And>i. i \<in> set xs \<Longrightarrow> P i = (i = t)) \<Longrightarrow> filter P xs = [t]"
proof (induction xs)
  case Nil
  then show ?case by simp
next
  case (Cons x xs)
  show ?case
  proof (cases "x = t")
    case True
    then have "t \<notin> set xs" using Cons.prems(1) by simp
    then have "filter P xs = []" using Cons.prems(3) by (auto simp: filter_empty_conv)
    with True Cons.prems(3)[of x] show ?thesis by simp
  next
    case False
    then have "t \<in> set xs" using Cons.prems(2) by simp
    moreover have "distinct xs" using Cons.prems(1) by simp
    ultimately have "filter P xs = [t]" using Cons.IH Cons.prems(3) by simp
    with False Cons.prems(3)[of x] show ?thesis by simp
  qed
qed




lemma data_section_query_SomeD:
  "querySelector (sel_data_section s) p = Some a \<Longrightarrow> a < length (elems p) \<and> data_section (elems p ! a) = Some s"
  using first_index_SomeD[of "sel_data_section s" "elems p" a]
  by (simp add: querySelector_def sel_data_section_def)

lemma getElementById_SomeD:
  "getElementById p s = Some t \<Longrightarrow> t < length (elems p) \<and> el_id (elems p ! t) = s \<and> s \<noteq> []"
  using first_index_SomeD[of "\<lambda>e. el_id e = s" "elems p" t]
  by (auto simp: getElementById_def split: if_splits)


lemma switchSection_item_and_panel:
  assumes safe: "selector_safe s"
    and g: "getElementById p s = Some t"
    and tc: "sel_content_section (elems p ! t)" and tn: "\<not> sel_channel_item (elems p ! t)"
    and d: "querySelector (sel_data_section s) p = Some a"
    and ac: "sel_channel_item (elems p ! a)" and an: "\<not> sel_content_section (elems p ! a)"
  shows "active_items (capture p) (snd (switchSection (capture p) s p)) = [a] \<and>
     active_sections (capture p) (snd (switchSection (capture p) s p)) = [t]"
proof
  let ?q = "snd (switchSection (capture p) s p)"
  have tl: "t < length (elems p)" using getElementById_SomeD[OF g] by simp
  have al: "a < length (elems p)" using data_section_query_SomeD[OF d] by simp
  have "has_class ''active'' (elems ?q ! i) = (i = a)" if i: "i \<in> set (channelItems (capture p))" for i
  proof -
    have len: "i < length (elems p)" and ic: "sel_channel_item (elems p ! i)"
      using i by (simp_all add: channelItems_capture)
    from ic tn have "i \<noteq> t" by auto
    then show ?thesis using i g d by (auto simp: switchSection_active[OF safe len])
  qed
  then show "active_items (capture p) ?q = [a]"
    unfolding active_items_def
    by (intro filter_eq_singleton distinct_channelItems_capture) (simp_all add: channelItems_capture al ac)
  have "has_class ''active'' (elems ?q ! i) = (i = t)" if i: "i \<in> set (sections (capture p))" for i
  proof -
    have len: "i < length (elems p)" and ic: "sel_content_section (elems p ! i)"
      using i by (simp_all add: sections_capture)
    from ic an have "i \<noteq> a" by auto
    then show ?thesis using i g d by (auto simp: switchSection_active[OF safe len])
  qed
  then show "active_sections (capture p) ?q = [t]"
    unfolding active_sections_def
    by (intro filter_eq_singleton distinct_sections_capture) (simp_all add: sections_capture tl tc)
qed




lemma index_from_range:
  "index_from xs e c = - 1 \<or> (c \<le> index_from xs e c \<and> index_from xs e c < c + int (length xs))"
proof (induction xs arbitrary: c)
  case Nil
  show ?case by simp
next
  case (Cons x xs)
  from Cons.IH[of "c + 1"] show ?case by auto
qed

lemma indexOf_range: "- 1 \<le> indexOf xs x \<and> indexOf xs x < int (length xs)"
proof (cases x)
  case None
  then show ?thesis by (simp add: indexOf_def)
next
  case (Some e)
  with index_from_range[of xs e 0] show ?thesis by (auto simp: indexOf_def)
qed


lemma currentIndex_range:
  "- 1 \<le> currentIndex env p \<and> currentIndex env p < int (length (sections env))"
  unfolding currentIndex_def by (rule indexOf_range)

lemma js_rem_nonneg: "0 \<le> a \<Longrightarrow> 0 < n \<Longrightarrow> js_rem a n = Some (a mod n)"
  by (cases "a = 0") (simp_all add: js_rem_def)

lemma nextIndex_mod:
  assumes "0 < n" "- 1 \<le> i" "i < n"
  shows "nextIndex key i n = Some ((if key = ''ArrowLeft'' then i - 1 + n else i + 1) mod n)"
proof (cases "key = ''ArrowLeft''")
  case False
  then show ?thesis using assms by (simp add: nextIndex_def js_rem_nonneg)
next
  case True
  show ?thesis
  proof (cases "0 \<le> i - 1 + n")
    case True
    with \<open>key = ''ArrowLeft''\<close> assms show ?thesis by (simp add: nextIndex_def js_rem_nonneg)
  next
    case False
    with assms have "n = 1" "i = - 1" by auto
    with \<open>key = ''ArrowLeft''\<close> show ?thesis by (simp add: nextIndex_def js_rem_def)
  qed
qed

section \<open>The handlers and the node lists\<close>

lemma switchSection_capture: "capture (snd (switchSection env s p)) = capture p"
  by (rule same_structure_capture[OF switchSection_same_structure])

lemma switchSection_observable: "switchSection env s p \<noteq> (Normal, p)"
proof
  assume a: "switchSection env s p = (Normal, p)"
  then have "fst (switchSection env s p) = Normal" by simp
  from switchSection_pushes[OF this] a show False by simp
qed

lemma drop_location_hash: "drop 1 (location_hash p) = url_fragment p"
  by (simp add: location_hash_def)

lemma handleHashChange_eq:
  "handleHashChange env p =
     (if url_fragment p \<noteq> [] \<and> getElementById p (url_fragment p) \<noteq> None
      then switchSection env (url_fragment p) p else (Normal, p))"
  unfolding handleHashChange_def Let_def drop_location_hash by simp

lemma initial_load_eq: "initial_load env p = handleHashChange env p"
  by (simp add: initial_load_def handleHashChange_eq location_hash_def)

section \<open>Key presses\<close>

lemma wrapped_index_range: "0 < n \<Longrightarrow> 0 \<le> wrapped_index key i n \<and> wrapped_index key i n < n"
  by (simp add: wrapped_index_def)

lemma keydown_navigation_eq:
  assumes key: "key = ''ArrowLeft'' \<or> key = ''ArrowRight''" and ne: "sections env \<noteq> []"
  shows "keydown_navigation env key p =
     switchSection env
       (el_id (elems p ! (sections env ! nat (wrapped_index key (currentIndex env p) (int (length (sections env))))))) p"
proof -
  let ?n = "int (length (sections env))"
  let ?i = "currentIndex env p"
  have n: "0 < ?n" using ne by simp
  have ni: "nextIndex key ?i ?n = Some (wrapped_index key ?i ?n)"
    using nextIndex_mod[OF n] currentIndex_range[of env p] by (simp add: wrapped_index_def)
  show ?thesis
    using key wrapped_index_range[OF n, of key ?i]
    by (simp add: keydown_navigation_def Let_def ni array_get_def)
qed

lemma keydown_navigation_no_sections:
  "sections env = [] \<Longrightarrow> keydown_navigation env key p = (Normal, p)"
  by (simp add: keydown_navigation_def Let_def nextIndex_def js_rem_def array_get_def)

lemma keydown_navigation_other_key:
  "key \<noteq> ''ArrowLeft'' \<Longrightarrow> key \<noteq> ''ArrowRight'' \<Longrightarrow> keydown_navigation env key p = (Normal, p)"
  by (simp add: keydown_navigation_def)

lemma index_from_found:
  "0 \<le> c \<Longrightarrow> 0 \<le> index_from xs e c \<Longrightarrow> xs ! nat (index_from xs e c - c) = e"
proof (induction xs arbitrary: c)
  case Nil
  then show ?case by simp
next
  case (Cons x xs)
  show ?case
  proof (cases "x = e")
    case True
    then show ?thesis by simp
  next
    case False
    let ?r = "index_from xs e (c + 1)"
    have r: "0 \<le> ?r" using Cons.prems False by simp
    then have "c + 1 \<le> ?r" using index_from_range[of xs e "c + 1"] by auto
    then have "nat (?r - c) = Suc (nat (?r - (c + 1)))" by simp
    moreover have "xs ! nat (?r - (c + 1)) = e" using Cons.IH[of "c + 1"] Cons.prems(1) r by simp
    ultimately show ?thesis using False by simp
  qed
qed

lemma currentIndex_found:
  "0 \<le> currentIndex env p \<Longrightarrow>
     querySelector sel_active_section p = Some (sections env ! nat (currentIndex env p))"
proof -
  assume a: "0 \<le> currentIndex env p"
  show ?thesis
  proof (cases "querySelector sel_active_section p")
    case None
    with a show ?thesis by (simp add: currentIndex_def indexOf_def)
  next
    case (Some e)
    with a index_from_found[of 0 "sections env" e] show ?thesis
      by (simp add: currentIndex_def indexOf_def)
  qed
qed

lemma press_same_structure: "same_structure p (press env key p)"
  unfolding press_def keydown_navigation_def
  by (simp add: same_structure_refl switchSection_same_structure Let_def split: option.splits)



section \<open>The key buffer\<close>

lemma slice_last_length: "length (slice_last n xs) \<le> n"
  by (simp add: slice_last_def)

lemma slice_last_append_exact: "length ys = n \<Longrightarrow> slice_last n (xs @ ys) = ys"
  by (simp add: slice_last_def)

lemma slice_last_short: "length xs \<le> n \<Longrightarrow> slice_last n xs = xs"
  by (simp add: slice_last_def)

lemma slice_last_slice_last_append:
  "slice_last n (slice_last n xs @ ys) = slice_last n (xs @ ys)"
proof (cases "length xs \<le> n")
  case True
  then show ?thesis by (simp add: slice_last_def)
next
  case False
  then have a: "length xs + length ys - (length xs - n + n) + (length xs - n) = length xs + length ys - n"
    by arith
  have b: "length ys - (length xs - (length xs - n)) = length xs + length ys - n - length xs"
    using False by arith
  show ?thesis by (simp add: slice_last_def a b)
qed

lemma slice_last_snoc:
  "0 < n \<Longrightarrow> slice_last n (xs @ [x]) \<noteq> [] \<and> last (slice_last n (xs @ [x])) = x"
  by (simp add: slice_last_def)

lemma keydown_konami_snd: "snd (keydown_konami key code) = slice_last 10 (code @ [key])"
  by (simp add: keydown_konami_def Let_def)

lemma keydown_konami_fst:
  "fst (keydown_konami key code) = (join (slice_last 10 (code @ [key])) = join konamiSequence)"
  by (simp add: keydown_konami_def Let_def)

lemma konami_buffer_slice:
  "length code \<le> 10 \<Longrightarrow> konami_buffer keys code = slice_last 10 (code @ keys)"
proof (induction keys arbitrary: code)
  case Nil
  then show ?case by (simp add: slice_last_short)
next
  case (Cons k ks)
  have "length (snd (keydown_konami k code)) \<le> 10"
    by (simp add: keydown_konami_snd slice_last_length)
  from Cons.IH[OF this] show ?case
    by (simp add: keydown_konami_snd slice_last_slice_last_append)
qed

lemma konami_buffer_nonempty:
  assumes "keys \<noteq> []"
  shows "konami_buffer keys code = slice_last 10 (code @ keys)"
proof -
  from assms obtain k ks where keys: "keys = k # ks" by (cases keys) auto
  have "length (snd (keydown_konami k code)) \<le> 10"
    by (simp add: keydown_konami_snd slice_last_length)
  from konami_buffer_slice[OF this, of ks] keys show ?thesis
    by (simp add: keydown_konami_snd slice_last_slice_last_append)
qed

lemma last_concat: "ws \<noteq> [] \<Longrightarrow> last ws \<noteq> [] \<Longrightarrow> last (concat ws) = last (last ws)"
  by (induction ws) (auto simp: last_append)

lemma join_konamiSequence:
  "join konamiSequence = ''ArrowUpArrowUpArrowDownArrowDownArrowLeftArrowRightArrowLeftArrowRightba''"
  by (simp add: join_def konamiSequence_def)

lemma keydown_konami_not_fired:
  assumes "key \<noteq> []" "last key \<noteq> CHR ''a''"
  shows "\<not> fst (keydown_konami key code)"
proof
  assume "fst (keydown_konami key code)"
  then have e: "concat (slice_last 10 (code @ [key])) = join konamiSequence"
    by (simp add: keydown_konami_fst join_def)
  have "last (concat (slice_last 10 (code @ [key]))) = last key"
    using slice_last_snoc[of 10 code key] assms(1) by (simp add: last_concat)
  with e assms(2) show False by (simp add: join_konamiSequence)
qed

lemma keydown_konami_window:
  "slice_last 10 (code @ [key]) = konamiSequence \<Longrightarrow> fst (keydown_konami key code)"
  by (simp add: keydown_konami_fst)

lemma length_konamiSequence: "length konamiSequence = 10"
  by (simp add: konamiSequence_def)

lemma konami_fired_quiet:
  "list_all (\<lambda>k. k \<noteq> [] \<and> last k \<noteq> CHR ''a'') ks \<Longrightarrow>
     konami_fired ks c = replicate (length ks) False"
  by (induction ks arbitrary: c) (simp_all add: keydown_konami_not_fired)

lemma konami_fired_snoc:
  "konami_fired (ks @ [k]) c = konami_fired ks c @ [fst (keydown_konami k (konami_buffer ks c))]"
  by (induction ks arbitrary: c) simp_all

lemma konami_fired_append:
  "konami_fired (ks @ ks') c = konami_fired ks c @ konami_fired ks' (konami_buffer ks c)"
  by (induction ks arbitrary: c) simp_all

lemma typing_sequence_fires_once:
  "konami_fired konamiSequence code = replicate 9 False @ [True]"
proof -
  let ?first = "[''ArrowUp'', ''ArrowUp'', ''ArrowDown'', ''ArrowDown'', ''ArrowLeft'', ''ArrowRight'',
      ''ArrowLeft'', ''ArrowRight'', ''b'']"
  have seq: "konamiSequence = ?first @ [''a'']" by (simp add: konamiSequence_def)
  have "slice_last 10 (konami_buffer ?first code @ [''a'']) = slice_last 10 (code @ konamiSequence)"
    unfolding seq by (simp only: konami_buffer_nonempty slice_last_slice_last_append append_assoc list.simps not_False_eq_True)
  also have "\<dots> = konamiSequence"
    by (rule slice_last_append_exact[OF length_konamiSequence])
  finally have f: "fst (keydown_konami ''a'' (konami_buffer ?first code))"
    by (rule keydown_konami_window)
  have len: "length ?first = 9" by simp
  have q: "konami_fired ?first code = replicate (length ?first) False"
    by (rule konami_fired_quiet) simp
  show ?thesis unfolding seq konami_fired_snoc q len using f by simp
qed

lemma wrong_key_last_not_fired:
  assumes k: "k < 10" and w: "w \<noteq> konamiSequence ! k"
  shows "\<not> last (konami_fired (konamiSequence[k := w]) code)"
proof -
  let ?a = "konamiSequence[k := w]"
  have la: "length ?a = 10" by (simp add: length_konamiSequence)
  have ne: "?a \<noteq> []" using la by auto
  have sp: "butlast ?a @ [last ?a] = ?a" using ne by simp
  have bne: "butlast ?a \<noteq> []"
  proof
    assume "butlast ?a = []"
    then have "length (butlast ?a) = 0" by simp
    then show False by (simp add: length_konamiSequence)
  qed
  have "slice_last 10 (konami_buffer (butlast ?a) code @ [last ?a]) = slice_last 10 (code @ (butlast ?a @ [last ?a]))"
    by (simp add: konami_buffer_nonempty[OF bne] slice_last_slice_last_append)
  also have "\<dots> = ?a" unfolding sp by (rule slice_last_append_exact[OF la])
  finally have win: "slice_last 10 (konami_buffer (butlast ?a) code @ [last ?a]) = ?a" .
  have neq: "join ?a \<noteq> join konamiSequence"
  proof
    assume e: "join ?a = join konamiSequence"
    have d: "?a = take k konamiSequence @ w # drop (Suc k) konamiSequence"
      using k by (simp add: upd_conv_take_nth_drop length_konamiSequence)
    have d': "konamiSequence = take k konamiSequence @ (konamiSequence ! k) # drop (Suc k) konamiSequence"
      using k by (simp add: id_take_nth_drop length_konamiSequence)
    have "concat (take k konamiSequence @ w # drop (Suc k) konamiSequence) =
          concat (take k konamiSequence @ (konamiSequence ! k) # drop (Suc k) konamiSequence)"
      using e d d' by (simp add: join_def)
    then have "w = konamiSequence ! k" by simp
    with w show False by simp
  qed
  have "konami_fired ?a code = konami_fired (butlast ?a) code @ [fst (keydown_konami (last ?a) (konami_buffer (butlast ?a) code))]"
    using konami_fired_snoc[of "butlast ?a" "last ?a" code] unfolding sp .
  then have "last (konami_fired ?a code) = fst (keydown_konami (last ?a) (konami_buffer (butlast ?a) code))"
    by simp
  also have "\<dots> = (join ?a = join konamiSequence)"
    by (simp add: keydown_konami_fst win)
  finally show ?thesis using neq by simp
qed

section \<open>Windows of plain keys\<close>

lemma pairs_nth:
  "pr \<in> set (zip w (tl w)) \<longleftrightarrow> (\<exists>i. Suc i < length w \<and> pr = (w ! i, w ! Suc i))"
proof (cases w)
  case Nil
  then show ?thesis by simp
next
  case (Cons x t)
  have "pr \<in> set (zip (x # t) t) \<longleftrightarrow> (\<exists>i. i < length t \<and> pr = ((x # t) ! i, t ! i))"
    unfolding set_zip by auto
  then show ?thesis using Cons by simp
qed

lemma pairs_part:
  "set (zip w (tl w)) \<subseteq> set (zip (xs @ w @ ys) (tl (xs @ w @ ys)))"
proof
  fix pr
  assume "pr \<in> set (zip w (tl w))"
  then obtain i where i: "Suc i < length w" "pr = (w ! i, w ! Suc i)"
    unfolding pairs_nth by blast
  let ?t = "xs @ w @ ys"
  have "Suc (length xs + i) < length ?t" using i(1) by simp
  moreover have "?t ! (length xs + i) = w ! i" using i(1) by (simp add: nth_append)
  moreover have "?t ! Suc (length xs + i) = w ! Suc i"
    using i(1) nth_append_length_plus[of xs "w @ ys" "Suc i"] by (simp add: nth_append)
  ultimately show "pr \<in> set (zip ?t (tl ?t))"
    unfolding pairs_nth using i(2) by (intro exI[of _ "length xs + i"]) simp
qed

lemma pairs_concat:
  assumes "w \<in> set ws"
  shows "set (zip w (tl w)) \<subseteq> set (zip (concat ws) (tl (concat ws)))"
proof -
  from assms obtain as bs where ws: "ws = as @ w # bs" by (auto dest: split_list)
  show ?thesis using pairs_part[of w "concat as" "concat bs"] by (simp add: ws)
qed

lemma target_pairs:
  "list_all (\<lambda>pr. marker (snd pr) \<longrightarrow> pr \<in> set boundary_pairs)
     (zip (join konamiSequence) (tl (join konamiSequence)))"
  by (simp add: join_konamiSequence marker_def boundary_pairs_def)

lemma plain_tail:
  assumes w: "w \<in> set ws" and plain: "plain_key w" and j: "join ws = join konamiSequence"
  shows "list_all (\<lambda>c. \<not> marker c) (tl w)"
  unfolding list_all_iff
proof
  fix c
  assume "c \<in> set (tl w)"
  then obtain i where i: "i < length (tl w)" "c = tl w ! i" by (auto simp: in_set_conv_nth)
  then have s: "Suc i < length w" by simp
  then have c: "c = w ! Suc i" using i by (simp add: nth_tl)
  have pr: "(w ! i, c) \<in> set (zip w (tl w))" unfolding pairs_nth using s c by blast
  then have "(w ! i, c) \<in> set (zip (join konamiSequence) (tl (join konamiSequence)))"
    using pairs_concat[OF w] j by (auto simp: join_def)
  then have "marker c \<longrightarrow> (w ! i, c) \<in> set boundary_pairs"
    using target_pairs by (auto simp: list_all_iff)
  moreover have "(w ! i, c) \<notin> set boundary_pairs"
    using plain pr by (auto simp: plain_key_def list_all_iff)
  ultimately show "\<not> marker c" by blast
qed

lemma marker_count_tail:
  "list_all (\<lambda>c. \<not> marker c) (tl w) \<Longrightarrow> marker_count w \<le> 1"
  by (cases w) (auto simp: marker_count_def list_all_iff filter_empty_conv)

lemma marker_count_headed:
  "list_all (\<lambda>c. \<not> marker c) (tl w) \<Longrightarrow> marker_count w = 1 \<Longrightarrow> headed w"
  by (cases w) (auto simp: marker_count_def headed_def list_all_iff filter_empty_conv split: if_splits)

lemma marker_count_concat: "marker_count (concat ws) = sum_list (map marker_count ws)"
  by (induction ws) (simp_all add: marker_count_def)

lemma marker_count_target: "marker_count (join konamiSequence) = 10"
  by (simp add: join_konamiSequence marker_count_def marker_def)

lemma sum_list_le_length:
  "(\<And>x. x \<in> set xs \<Longrightarrow> x \<le> (1::nat)) \<Longrightarrow> sum_list xs \<le> length xs"
proof (induction xs)
  case Nil
  show ?case by simp
next
  case (Cons x xs)
  have "x \<le> 1" using Cons.prems by simp
  moreover have "sum_list xs \<le> length xs" using Cons.IH Cons.prems by simp
  ultimately show ?case by simp
qed

lemma sum_list_all_one:
  "(\<And>x. x \<in> set xs \<Longrightarrow> x \<le> (1::nat)) \<Longrightarrow> length xs \<le> sum_list xs \<Longrightarrow> (\<forall>x\<in>set xs. x = 1)"
proof (induction xs)
  case Nil
  show ?case by simp
next
  case (Cons x xs)
  have le: "sum_list xs \<le> length xs"
    using Cons.prems(1) by (intro sum_list_le_length) simp
  have x: "x \<le> 1" using Cons.prems(1) by simp
  with le Cons.prems(2) have "x = 1" "length xs \<le> sum_list xs" by auto
  with Cons.IH Cons.prems(1) show ?case by simp
qed

lemma headed_sequence: "list_all headed konamiSequence"
  by (simp add: konamiSequence_def headed_def marker_def)

lemma concat_headed:
  "list_all headed ws \<Longrightarrow> concat ws = [] \<or> marker (hd (concat ws))"
  by (cases ws) (auto simp: headed_def)

lemma split_unique:
  assumes "list_all (\<lambda>c. \<not> marker c) r" "list_all (\<lambda>c. \<not> marker c) r'"
    and "x = [] \<or> marker (hd x)" "y = [] \<or> marker (hd y)"
    and "r @ x = r' @ y"
  shows "r = r' \<and> x = y"
  using assms
proof (induction r arbitrary: r')
  case Nil
  then show ?case by (cases r') auto
next
  case (Cons c r)
  show ?case
  proof (cases r')
    case Nil
    with Cons.prems show ?thesis by auto
  next
    case (Cons c' r'')
    with Cons.prems Cons.IH[of r''] show ?thesis by auto
  qed
qed

lemma decode:
  "list_all headed ws \<Longrightarrow> list_all headed vs \<Longrightarrow> concat ws = concat vs \<Longrightarrow> ws = vs"
proof (induction ws arbitrary: vs)
  case Nil
  then show ?case by (cases vs) (auto simp: headed_def)
next
  case (Cons w ws)
  from Cons.prems obtain v vs' where vs: "vs = v # vs'"
    by (cases vs) (auto simp: headed_def)
  from Cons.prems(1) obtain m r where w: "w = m # r" "list_all (\<lambda>c. \<not> marker c) r"
    by (cases w) (auto simp: headed_def)
  from Cons.prems(2) vs obtain m' r' where v: "v = m' # r'" "list_all (\<lambda>c. \<not> marker c) r'"
    by (cases v) (auto simp: headed_def)
  have hw: "list_all headed ws" and hv: "list_all headed vs'" using Cons.prems vs by simp_all
  have e: "r @ concat ws = r' @ concat vs'" and m: "m = m'"
    using Cons.prems(3) vs w v by simp_all
  from split_unique[OF w(2) v(2) concat_headed[OF hw] concat_headed[OF hv] e]
  have "r = r'" "concat ws = concat vs'" by simp_all
  with Cons.IH[OF hw hv] m w v vs show ?case by simp
qed

lemma plain_window:
  assumes plain: "list_all plain_key ws" and len: "length ws \<le> 10"
    and j: "join ws = join konamiSequence"
  shows "ws = konamiSequence"
proof -
  have tail: "list_all (\<lambda>c. \<not> marker c) (tl w)" if "w \<in> set ws" for w
    using plain_tail[OF that _ j] plain that by (simp add: list_all_iff)
  have le1: "x \<le> 1" if "x \<in> set (map marker_count ws)" for x
    using that tail marker_count_tail by auto
  have "sum_list (map marker_count ws) = marker_count (concat ws)"
    by (simp add: marker_count_concat)
  also have "\<dots> = marker_count (join konamiSequence)" using j by (simp add: join_def)
  also have "\<dots> = 10" by (rule marker_count_target)
  finally have "sum_list (map marker_count ws) = 10" .
  then have "length (map marker_count ws) \<le> sum_list (map marker_count ws)" using len by simp
  from sum_list_all_one[OF le1 this] have one: "marker_count w = 1" if "w \<in> set ws" for w
    using that by simp
  have "list_all headed ws"
    unfolding list_all_iff using tail one marker_count_headed by blast
  moreover have "concat ws = concat konamiSequence" using j by (simp add: join_def)
  ultimately show ?thesis using headed_sequence by (intro decode)
qed

lemma plain_key_short: "length w \<le> 1 \<Longrightarrow> plain_key w"
  by (cases w) (auto simp: plain_key_def)

lemma plain_key_sequence: "list_all plain_key konamiSequence"
  by (simp add: konamiSequence_def plain_key_def boundary_pairs_def)

section \<open>Streams of keys and the unmarked page\<close>

lemma map_upt_Suc_shift: "map f [0..<Suc n] = f 0 # map (\<lambda>j. f (Suc j)) [0..<n]"
  by (simp add: upt_conv_Cons map_Suc_upt[symmetric] del: upt_Suc)

lemma plain_window_iff:
  "list_all plain_key ws \<Longrightarrow> length ws \<le> 10 \<Longrightarrow>
     (join ws = join konamiSequence) = (ws = konamiSequence)"
  using plain_window by auto

lemma slice_last_plain: "list_all plain_key xs \<Longrightarrow> list_all plain_key (slice_last n xs)"
  unfolding slice_last_def list_all_iff by (auto dest: in_set_dropD)

lemma konami_fired_plain:
  "list_all plain_key code \<Longrightarrow> list_all plain_key keys \<Longrightarrow>
     konami_fired keys code =
       map (\<lambda>j. slice_last 10 (code @ take (Suc j) keys) = konamiSequence) [0..<length keys]"
proof (induction keys arbitrary: code)
  case Nil
  show ?case by simp
next
  case (Cons k ks)
  let ?c = "slice_last 10 (code @ [k])"
  have pc: "list_all plain_key ?c" using Cons.prems by (intro slice_last_plain) simp
  have pk: "list_all plain_key ks" using Cons.prems by simp
  have first: "fst (keydown_konami k code) = (?c = konamiSequence)"
    by (simp add: keydown_konami_fst plain_window_iff[OF pc] slice_last_length)
  have rest: "konami_fired ks ?c =
      map (\<lambda>j. slice_last 10 (code @ take (Suc (Suc j)) (k # ks)) = konamiSequence) [0..<length ks]"
    using Cons.IH[OF pc pk] slice_last_slice_last_append[of 10 "code @ [k]"] by simp
  show ?case
    unfolding list.size konami_fired.simps keydown_konami_snd first rest
    using map_upt_Suc_shift[of "\<lambda>j. slice_last 10 (code @ take (Suc j) (k # ks)) = konamiSequence" "length ks"]
    by simp
qed

lemma konami_fired_plain_fresh:
  "list_all plain_key keys \<Longrightarrow>
     konami_fired keys [] = map (\<lambda>j. slice_last 10 (take (Suc j) keys) = konamiSequence) [0..<length keys]"
  using konami_fired_plain[of "[]" keys] by simp

lemma konami_fired_then_sequence:
  "konami_fired (keys @ konamiSequence) code = konami_fired keys code @ replicate 9 False @ [True]"
  by (simp add: konami_fired_append typing_sequence_fires_once)

lemma wrong_plain_key_quiet:
  assumes k: "k < 10" and w: "w \<noteq> konamiSequence ! k" and p: "plain_key w"
  shows "konami_fired (konamiSequence[k := w]) [] = replicate 10 False"
proof -
  let ?a = "konamiSequence[k := w]"
  have la: "length ?a = 10" by (simp add: length_konamiSequence)
  have pa: "list_all plain_key ?a"
    unfolding list_all_iff
    using plain_key_sequence p set_update_subset_insert[of konamiSequence k w]
    by (auto simp: list_all_iff)
  have ne: "?a \<noteq> konamiSequence"
  proof
    assume "?a = konamiSequence"
    then have "?a ! k = konamiSequence ! k" by simp
    with k w show False by (simp add: length_konamiSequence)
  qed
  have "(slice_last 10 (take (Suc j) ?a) = konamiSequence) = False" if "j < 10" for j
  proof (cases "Suc j = 10")
    case True
    then have "take (Suc j) ?a = ?a" using la by simp
    with ne la show ?thesis by (simp add: slice_last_short)
  next
    case False
    with that have "length (take (Suc j) ?a) < 10" using la by simp
    then have "length (slice_last 10 (take (Suc j) ?a)) < 10"
      using slice_last_length[of 10 "take (Suc j) ?a"] by (simp add: slice_last_def)
    then show ?thesis using length_konamiSequence by auto
  qed
  then have "map (\<lambda>j. slice_last 10 (take (Suc j) ?a) = konamiSequence) [0..<10] = map (\<lambda>j. False) [0..<10]"
    by (intro map_cong) auto
  then show ?thesis
    using konami_fired_plain_fresh[OF pa] la by (simp add: map_replicate_const)
qed



lemma currentIndex_none: "querySelector sel_active_section p = None \<Longrightarrow> currentIndex env p = - 1"
  by (simp add: currentIndex_def indexOf_def)

lemma switchSection_result_cases:
  "fst (switchSection env s p) = Normal \<or> fst (switchSection env s p) = Throw TypeError \<or>
   fst (switchSection env s p) = Throw SyntaxError"
  using activeItem_error[of s "cleared env p"]
  by (cases "activeItem s (cleared env p)") (auto simp: switchSection_completion)

lemma press_capture: "capture (press env key p) = capture p"
  by (rule same_structure_capture[OF press_same_structure])

lemma handleHashChange_capture: "capture (snd (handleHashChange env p)) = capture p"
  by (simp add: handleHashChange_eq switchSection_capture)

section \<open>The claims\<close>

text \<open>
  The node lists are taken once, at load. No handler changes what they are computed from
  (lemmas \<open>switchSection_capture\<close>, \<open>press_capture\<close> and \<open>handleHashChange_capture\<close>), so at
  any later moment they are the lists of the page as it is then; statements about the
  markers are therefore written with \<open>capture p\<close> for the page \<open>p\<close> a handler starts from.
  That a handler calls \<open>switchSection\<close> with an id is stated as: its result is the result
  of that call.
\<close>

subsection \<open>C1: an id that matches no Section\<close>




subsection \<open>C2: a valid Section id\<close>

text \<open>
  \<^bold>\<open>C2\<close> says that after \<open>switchSection\<close> with a valid Section id exactly one NavigationItem
  and exactly one content panel carry the active marker, both for that id. Line 24 looks
  for the item with the selector \<^verbatim>\<open>[data-section="..."]\<close>, without the class
  \<^verbatim>\<open>channel-item\<close> that line 4 asks of a NavigationItem (the comment of line 23 speaks of
  the clicked item): it marks the first element of the document with that attribute value,
  whatever it is. On the sample page with a button for \<^verbatim>\<open>demo\<close> ahead of the navigation,
  every Section has an id of its own, \<^verbatim>\<open>demo\<close> is the id of the panel 7 and the
  \<^verbatim>\<open>data-section\<close> value of the NavigationItem 2. The call for \<^verbatim>\<open>demo\<close> completes, marks the
  panel and the button, and leaves no NavigationItem active. Line 20 takes the marker from
  NavigationItems only, so the button keeps it: after a further call for \<^verbatim>\<open>hero\<close> the button
  carries the marker beside the NavigationItem 1.
\<close>

theorem switchSection_marks_first_match:
  "wf_sections page_with_button \<and>
   channelItems (capture page_with_button) = [1, 2, 3] \<and>
   sections (capture page_with_button) = [6, 7, 8] \<and>
   el_id (elems page_with_button ! 7) = ''demo'' \<and>
   data_section (elems page_with_button ! 2) = Some ''demo'' \<and>
   fst (switchSection (capture page_with_button) ''demo'' page_with_button) = Normal \<and>
   active_items (capture page_with_button)
     (snd (switchSection (capture page_with_button) ''demo'' page_with_button)) = [] \<and>
   active_sections (capture page_with_button)
     (snd (switchSection (capture page_with_button) ''demo'' page_with_button)) = [7] \<and>
   has_class ''active''
     (elems (snd (switchSection (capture page_with_button) ''demo'' page_with_button)) ! 0) \<and>
   active_items (capture page_with_button)
     (snd (switchSection (capture page_with_button) ''hero''
        (snd (switchSection (capture page_with_button) ''demo'' page_with_button)))) = [1] \<and>
   has_class ''active''
     (elems (snd (switchSection (capture page_with_button) ''hero''
        (snd (switchSection (capture page_with_button) ''demo'' page_with_button)))) ! 0)"
  by code_simp

subsection \<open>C3: the fragment after a call\<close>

text \<open>
  \<^bold>\<open>C3\<close> says that every call of \<open>switchSection\<close> with an id \<open>s\<close> sets the address-bar
  fragment to \<open>s\<close> by pushing a new entry. The push is the last statement of the function
  (line 43); lines 34 and 39 dereference the results of two lookups without the check that
  lines 25 and 31 make, and throw before it when the scroll container or the label is
  missing. On the page without the scroll container the call for the panel \<^verbatim>\<open>hero\<close> throws
  a \<^verbatim>\<open>TypeError\<close>, and the fragment and the history are what they were. (A call that
  completes does push: lemma \<open>switchSection_pushes\<close>; lemma \<open>switchSection_completion\<close> says
  which calls complete.)
\<close>

theorem switchSection_throws_before_pushState:
  "fst (switchSection (capture page_without_container) ''hero'' page_without_container) = Throw TypeError \<and>
   url_fragment (snd (switchSection (capture page_without_container) ''hero'' page_without_container)) = [] \<and>
   prior_entries (snd (switchSection (capture page_without_container) ''hero'' page_without_container)) = []"
  by code_simp

subsection \<open>C4: missing optional elements\<close>

text \<open>
  \<^bold>\<open>C4\<close> says that a missing label or scroll container is checked for and left alone, so
  that the call completes without an error. It does not: on the page without the scroll
  container, and on the page without the label, the call for the panel \<^verbatim>\<open>hero\<close> ends in a
  \<^verbatim>\<open>TypeError\<close> (line 34 and line 39).
\<close>

theorem switchSection_missing_element_throws:
  "querySelector sel_messages_container page_without_container = None \<and>
   fst (switchSection (capture page_without_container) ''hero'' page_without_container) = Throw TypeError \<and>
   channelNameEl (capture page_without_label) = None \<and>
   fst (switchSection (capture page_without_label) ''hero'' page_without_label) = Throw TypeError"
  by code_simp

subsection \<open>C5: hash navigation\<close>

text \<open>
  \<^bold>\<open>C5, as stated, fails.\<close> The claim: \<open>handleHashChange\<close> calls \<open>switchSection\<close> if and
  only if the fragment is non-empty and names an existing Section. The check of line 58 is
  for an element with that id, of any kind. At \<^verbatim>\<open>#channel-name\<close>, the id of the label and of
  no panel, the handler does call \<open>switchSection\<close>: the active panel loses its marker and the
  label gets one.
\<close>

theorem handleHashChange_calls_for_non_section:
  "url_fragment page_at_label = ''channel-name'' \<and>
   ''channel-name'' \<notin> set (section_ids (capture page_at_label) page_at_label) \<and>
   handleHashChange (capture page_at_label) page_at_label =
     switchSection (capture page_at_label) ''channel-name'' page_at_label \<and>
   active_sections (capture page_at_label) page_at_label = [5] \<and>
   active_sections (capture page_at_label) (snd (handleHashChange (capture page_at_label) page_at_label)) = [] \<and>
   has_class ''active'' (elems (snd (handleHashChange (capture page_at_label) page_at_label)) ! 3)"
proof -
  have f: "url_fragment page_at_label = ''channel-name''" by code_simp
  have n: "''channel-name'' \<notin> set (section_ids (capture page_at_label) page_at_label)" by code_simp
  have g: "getElementById page_at_label ''channel-name'' = Some 3" by code_simp
  have c: "handleHashChange (capture page_at_label) page_at_label =
      switchSection (capture page_at_label) ''channel-name'' page_at_label"
    by (simp add: handleHashChange_eq f g)
  have b: "active_sections (capture page_at_label) page_at_label = [5]" by code_simp
  have a: "active_sections (capture page_at_label)
      (snd (handleHashChange (capture page_at_label) page_at_label)) = []" by code_simp
  have l: "has_class ''active'' (elems (snd (handleHashChange (capture page_at_label) page_at_label)) ! 3)"
    by code_simp
  from f n c b a l show ?thesis by simp
qed

text \<open>
  \<^bold>\<open>C5, amended.\<close> On a fragment change and on the initial load alike, the handler reads
  the current fragment and calls \<open>switchSection\<close> with it if and only if the fragment is
  non-empty and is the id of an existing element of the document, Section or not; it never
  calls \<open>switchSection\<close> with an id for which it found no element. (A call always shows: it
  never returns the page unchanged with a normal completion.)
\<close>

theorem handleHashChange_guard:
  "handleHashChange env p =
     (if url_fragment p \<noteq> [] \<and> getElementById p (url_fragment p) \<noteq> None
      then switchSection env (url_fragment p) p else (Normal, p)) \<and>
   initial_load env p = handleHashChange env p \<and>
   (handleHashChange env p = (Normal, p)) =
     (url_fragment p = [] \<or> getElementById p (url_fragment p) = None)"
proof -
  let ?found = "url_fragment p \<noteq> [] \<and> getElementById p (url_fragment p) \<noteq> None"
  have read: "drop 1 (location_hash p) = url_fragment p"
    by (simp add: location_hash_def)
  have handler: "handleHashChange env p =
      (if ?found then switchSection env (url_fragment p) p else (Normal, p))"
    unfolding handleHashChange_def Let_def read by simp
  have load: "initial_load env p = handleHashChange env p"
  proof (cases "url_fragment p = []")
    case True
    then show ?thesis by (simp add: initial_load_def handler location_hash_def)
  next
    case False
    then show ?thesis by (simp add: initial_load_def location_hash_def)
  qed
  have seen: "switchSection env (url_fragment p) p \<noteq> (Normal, p)"
  proof
    assume e: "switchSection env (url_fragment p) p = (Normal, p)"
    then have "fst (switchSection env (url_fragment p) p) = Normal" by simp
    from switchSection_pushes[OF this] e show False by simp
  qed
  have "(handleHashChange env p = (Normal, p)) = (\<not> ?found)"
    using handler seen by auto
  with handler load show ?thesis by simp
qed

text \<open>The amended statement at \<^verbatim>\<open>#channel-name\<close>.\<close>

theorem handleHashChange_guard_witness:
  "handleHashChange (capture page_at_label) page_at_label =
     switchSection (capture page_at_label) ''channel-name'' page_at_label \<and>
   initial_load (capture page_at_label) page_at_label = handleHashChange (capture page_at_label) page_at_label \<and>
   handleHashChange (capture page_at_label) page_at_label \<noteq> (Normal, page_at_label)"
proof -
  have h1: "url_fragment page_at_label = ''channel-name''" by code_simp
  have h2: "getElementById page_at_label ''channel-name'' = Some 3" by code_simp
  from handleHashChange_guard[of "capture page_at_label" page_at_label] h1 h2 show ?thesis by auto
qed

subsection \<open>C6: the index a key press moves to\<close>

text \<open>
  \<^bold>\<open>C6, as stated, fails\<close> where there is no Section. The claim: for every left or right
  key press the handler calls \<open>switchSection\<close> on the Section at the wrapped index, and that
  index is valid. On a page without content panels \<open>N\<close> is 0, the remainder of line 251 is
  \<^verbatim>\<open>NaN\<close>, the array has nothing there, and the guard of line 255 skips the call: the
  handler leaves the page as it is.
\<close>

theorem keydown_navigation_without_sections:
  "sections (capture page_without_sections) = [] \<and>
   currentIndex (capture page_without_sections) page_without_sections = - 1 \<and>
   nextIndex ''ArrowRight'' (- 1) 0 = None \<and>
   nextIndex ''ArrowLeft'' (- 1) 0 = None \<and>
   keydown_navigation (capture page_without_sections) ''ArrowRight'' page_without_sections =
     (Normal, page_without_sections) \<and>
   keydown_navigation (capture page_without_sections) ''ArrowLeft'' page_without_sections =
     (Normal, page_without_sections)"
proof -
  have s: "sections (capture page_without_sections) = []" by code_simp
  have c: "currentIndex (capture page_without_sections) page_without_sections = - 1" by code_simp
  have r: "nextIndex ''ArrowRight'' (- 1) 0 = None" by code_simp
  have l: "nextIndex ''ArrowLeft'' (- 1) 0 = None" by code_simp
  from s c r l keydown_navigation_no_sections[OF s] show ?thesis by simp
qed

text \<open>
  \<^bold>\<open>C6, amended.\<close> For every left or right key press with \<open>N \<ge> 1\<close> Sections and \<open>i\<close> the
  index the script finds for the first active panel (\<open>- 1\<close> when none is active): the
  script's own arithmetic yields the index \<open>(i - 1 + N) mod N\<close> for left and
  \<open>(i + 1) mod N\<close> for right, this index lies in \<open>[0, N)\<close> also for \<open>i = - 1\<close>, and the
  handler is the call of \<open>switchSection\<close> with the id of the Section at that index. With no
  Section the index is \<^verbatim>\<open>NaN\<close> and the handler calls nothing.
\<close>

theorem keydown_navigation_index:
  assumes key: "key = ''ArrowLeft'' \<or> key = ''ArrowRight''"
  shows "(sections env = [] \<longrightarrow>
       nextIndex key (currentIndex env p) (int (length (sections env))) = None \<and>
       keydown_navigation env key p = (Normal, p)) \<and>
     (sections env \<noteq> [] \<longrightarrow>
       - 1 \<le> currentIndex env p \<and>
       currentIndex env p < int (length (sections env)) \<and>
       (if querySelector sel_active_section p = None then currentIndex env p = - 1
        else currentIndex env p = - 1 \<or>
          querySelector sel_active_section p = Some (sections env ! nat (currentIndex env p))) \<and>
       0 \<le> wrapped_index key (currentIndex env p) (int (length (sections env))) \<and>
       wrapped_index key (currentIndex env p) (int (length (sections env))) < int (length (sections env)) \<and>
       nextIndex key (currentIndex env p) (int (length (sections env))) =
         Some (wrapped_index key (currentIndex env p) (int (length (sections env)))) \<and>
       keydown_navigation env key p =
         switchSection env
           (el_id (elems p !
              (sections env ! nat (wrapped_index key (currentIndex env p) (int (length (sections env))))))) p)"
proof (intro conjI impI)
  assume none: "sections env = []"
  show "nextIndex key (currentIndex env p) (int (length (sections env))) = None"
    using none by (simp add: nextIndex_def js_rem_def)
  show "keydown_navigation env key p = (Normal, p)"
    using none by (rule keydown_navigation_no_sections)
next
  assume some: "sections env \<noteq> []"
  let ?n = "int (length (sections env))"
  have n: "0 < ?n" using some by simp
  have r: "- 1 \<le> currentIndex env p \<and> currentIndex env p < ?n" by (rule currentIndex_range)
  have ni: "nextIndex key (currentIndex env p) ?n = Some (wrapped_index key (currentIndex env p) ?n)"
    using nextIndex_mod[OF n] r by (simp add: wrapped_index_def)
  have f: "currentIndex env p = - 1 \<or>
      querySelector sel_active_section p = Some (sections env ! nat (currentIndex env p))"
    using currentIndex_found[of env p] r by linarith
  show "- 1 \<le> currentIndex env p" "currentIndex env p < ?n" using r by simp_all
  show "if querySelector sel_active_section p = None then currentIndex env p = - 1
      else currentIndex env p = - 1 \<or>
        querySelector sel_active_section p = Some (sections env ! nat (currentIndex env p))"
    using f currentIndex_none[of p env] by simp
  show "0 \<le> wrapped_index key (currentIndex env p) ?n" "wrapped_index key (currentIndex env p) ?n < ?n"
    using wrapped_index_range[OF n, of key "currentIndex env p"] by simp_all
  show "nextIndex key (currentIndex env p) ?n = Some (wrapped_index key (currentIndex env p) ?n)"
    by (rule ni)
  show "keydown_navigation env key p =
      switchSection env
        (el_id (elems p ! (sections env ! nat (wrapped_index key (currentIndex env p) ?n)))) p"
    by (rule keydown_navigation_eq[OF key some])
qed

text \<open>The amended statement for a left press on the sample page (\<open>i = 0\<close>), on the unmarked
  page (\<open>i = - 1\<close>) and on the page without panels.\<close>

theorem keydown_navigation_index_witness:
  "sections (capture sample_page) \<noteq> [] \<and>
   currentIndex (capture sample_page) sample_page = 0 \<and>
   wrapped_index ''ArrowLeft'' 0 3 = 2 \<and>
   nextIndex ''ArrowLeft'' 0 3 = Some 2 \<and>
   keydown_navigation (capture sample_page) ''ArrowLeft'' sample_page =
     switchSection (capture sample_page) ''features'' sample_page \<and>
   currentIndex (capture idle_page) idle_page = - 1 \<and>
   wrapped_index ''ArrowLeft'' (- 1) 3 = 1 \<and>
   keydown_navigation (capture idle_page) ''ArrowLeft'' idle_page =
     switchSection (capture idle_page) ''demo'' idle_page \<and>
   sections (capture page_without_sections) = [] \<and>
   keydown_navigation (capture page_without_sections) ''ArrowLeft'' page_without_sections =
     (Normal, page_without_sections)"
proof -
  have h0: "sections (capture page_without_sections) = []" by code_simp
  have h1: "sections (capture sample_page) \<noteq> []" by code_simp
  have h2: "sections (capture idle_page) \<noteq> []" by code_simp
  have c1: "currentIndex (capture sample_page) sample_page = 0" by code_simp
  have c2: "currentIndex (capture idle_page) idle_page = - 1" by code_simp
  have l1: "int (length (sections (capture sample_page))) = 3" by code_simp
  have l2: "int (length (sections (capture idle_page))) = 3" by code_simp
  have w1: "wrapped_index ''ArrowLeft'' 0 3 = 2" by code_simp
  have w2: "wrapped_index ''ArrowLeft'' (- 1) 3 = 1" by code_simp
  have e1: "el_id (elems sample_page ! (sections (capture sample_page) ! nat 2)) = ''features''" by code_simp
  have e2: "el_id (elems idle_page ! (sections (capture idle_page) ! nat 1)) = ''demo''" by code_simp
  from keydown_navigation_index[of "''ArrowLeft''" "capture sample_page" sample_page]
    keydown_navigation_index[of "''ArrowLeft''" "capture idle_page" idle_page]
    keydown_navigation_index[of "''ArrowLeft''" "capture page_without_sections" page_without_sections]
    h0 h1 h2
  show ?thesis unfolding c1 c2 l1 l2 w1 w2 e1 e2 by simp
qed

subsection \<open>C7: N right presses\<close>



subsection \<open>C8: the key sequence\<close>

text \<open>
  \<^bold>\<open>C8.\<close> For every stream of plain keys typed from the page's start, the animation starts
  at a key exactly when the window of the ten most recent keys, this one included, is the
  designated sequence. Whatever was typed before, a window that is the sequence starts it,
  and typing the sequence once starts it exactly once, at its last key. An attempt with
  nine right keys and one wrong key does not start it at its last key, and at no key when
  the wrong key is plain and the attempt is the first thing typed; and the sequence typed
  after such an attempt starts it, once, at its last key.
\<close>

theorem konami_trigger:
  "(list_all plain_key keys \<longrightarrow> konami_fired keys [] = window_matches keys) \<and>
   (slice_last 10 (code @ [key]) = konamiSequence \<longrightarrow> fst (keydown_konami key code)) \<and>
   konami_fired konamiSequence code = replicate 9 False @ [True] \<and>
   (k < 10 \<and> w \<noteq> konamiSequence ! k \<longrightarrow>
      \<not> last (konami_fired (konamiSequence[k := w]) code) \<and>
      (plain_key w \<longrightarrow> konami_fired (konamiSequence[k := w]) [] = replicate 10 False) \<and>
      konami_fired (konamiSequence[k := w] @ konamiSequence) code =
        konami_fired (konamiSequence[k := w]) code @ replicate 9 False @ [True])"
proof -
  have window: "slice_last 10 (code @ [key]) = konamiSequence \<longrightarrow> fst (keydown_konami key code)"
    using keydown_konami_window[of code key] by blast
  have plain: "list_all plain_key keys \<longrightarrow> konami_fired keys [] = window_matches keys"
    using konami_fired_plain_fresh[of keys] by (simp add: window_matches_def)
  have once: "konami_fired konamiSequence code = replicate 9 False @ [True]"
    by (rule typing_sequence_fires_once)
  have wrong: "\<not> last (konami_fired (konamiSequence[k := w]) code) \<and>
      (plain_key w \<longrightarrow> konami_fired (konamiSequence[k := w]) [] = replicate 10 False)"
    if "k < 10" "w \<noteq> konamiSequence ! k"
    using wrong_key_last_not_fired[OF that] wrong_plain_key_quiet[OF that] by blast
  have again: "konami_fired (konamiSequence[k := w] @ konamiSequence) code =
      konami_fired (konamiSequence[k := w]) code @ replicate 9 False @ [True]"
    by (rule konami_fired_then_sequence)
  from window plain once wrong again show ?thesis by blast
qed

text \<open>C8 on concrete keys.\<close>

theorem konami_trigger_witness:
  "list_all plain_key (''Enter'' # konamiSequence) \<and>
   konami_fired (''Enter'' # konamiSequence) [] = window_matches (''Enter'' # konamiSequence) \<and>
   window_matches (''Enter'' # konamiSequence) = replicate 10 False @ [True] \<and>
   konami_fired (''Enter'' # konamiSequence) [] = replicate 10 False @ [True] \<and>
   slice_last 10
     ([''ArrowUp'', ''ArrowUp'', ''ArrowDown'', ''ArrowDown'', ''ArrowLeft'', ''ArrowRight'',
       ''ArrowLeft'', ''ArrowRight'', ''b''] @ [''a'']) = konamiSequence \<and>
   fst (keydown_konami ''a''
     [''ArrowUp'', ''ArrowUp'', ''ArrowDown'', ''ArrowDown'', ''ArrowLeft'', ''ArrowRight'',
      ''ArrowLeft'', ''ArrowRight'', ''b'']) \<and>
   (8::nat) < 10 \<and> ''x'' \<noteq> konamiSequence ! 8 \<and> plain_key ''x'' \<and>
   konami_fired (konamiSequence[8 := ''x'']) [] = replicate 10 False \<and>
   \<not> last (konami_fired (konamiSequence[8 := ''x''])
     [''ArrowUp'', ''ArrowUp'', ''ArrowDown'', ''ArrowDown'', ''ArrowLeft'', ''ArrowRight'',
      ''ArrowLeft'', ''ArrowRight'', ''b'']) \<and>
   konami_fired (konamiSequence[8 := ''x''] @ konamiSequence)
     [''ArrowUp'', ''ArrowUp'', ''ArrowDown'', ''ArrowDown'', ''ArrowLeft'', ''ArrowRight'',
      ''ArrowLeft'', ''ArrowRight'', ''b''] = replicate 19 False @ [True]"
proof -
  let ?nine = "[''ArrowUp'', ''ArrowUp'', ''ArrowDown'', ''ArrowDown'', ''ArrowLeft'', ''ArrowRight'',
       ''ArrowLeft'', ''ArrowRight'', ''b'']"
  have h1: "slice_last 10 (?nine @ [''a'']) = konamiSequence" by code_simp
  have h2: "list_all plain_key (''Enter'' # konamiSequence)" by code_simp
  have h3: "(8::nat) < 10" by simp
  have h4: "''x'' \<noteq> konamiSequence ! 8" by code_simp
  have h5: "plain_key ''x''" by code_simp
  have e1: "konami_fired (''Enter'' # konamiSequence) [] = replicate 10 False @ [True]" by code_simp
  have e3: "window_matches (''Enter'' # konamiSequence) = replicate 10 False @ [True]" by code_simp
  have e2: "konami_fired (konamiSequence[8 := ''x''] @ konamiSequence) ?nine = replicate 19 False @ [True]"
    by code_simp
  from konami_trigger[of "''Enter'' # konamiSequence" ?nine "''a''" 8 "''x''"] h1 h2 h3 h4 h5 e1 e2 e3
  show ?thesis by blast
qed

subsection \<open>C9: the key buffer\<close>

text \<open>
  \<^bold>\<open>C9.\<close> After every \<^verbatim>\<open>keydown\<close> the buffer holds at most ten keys, and after any stream of
  keys from the page's start it holds the most recent at most ten of them.
\<close>

theorem konami_buffer_window:
  "length (snd (keydown_konami key code)) \<le> 10 \<and>
   length (konami_buffer keys []) \<le> 10 \<and>
   konami_buffer keys [] = slice_last 10 keys \<and>
   slice_last 10 keys = drop (length keys - 10) keys"
proof -
  have step: "snd (keydown_konami k c) = slice_last 10 (c @ [k])" for k c
    by (simp add: keydown_konami_def Let_def)
  have one: "length (snd (keydown_konami key code)) \<le> 10"
    unfolding step by (simp add: slice_last_def)
  have stream: "length c \<le> 10 \<Longrightarrow> konami_buffer ks c = slice_last 10 (c @ ks)" for ks c
  proof (induction ks arbitrary: c)
    case Nil
    then show ?case by (simp add: slice_last_def)
  next
    case (Cons k ks)
    have "length (snd (keydown_konami k c)) \<le> 10"
      unfolding step by (simp add: slice_last_def)
    from Cons.IH[OF this] show ?case
      by (simp add: step slice_last_slice_last_append)
  qed
  have all: "konami_buffer keys [] = slice_last 10 keys"
    using stream[of "[]" keys] by simp
  have "length (slice_last 10 keys) \<le> 10" by (simp add: slice_last_def)
  with one all show ?thesis by (simp add: slice_last_def)
qed

text \<open>C9 on twelve keys.\<close>

theorem konami_buffer_window_witness:
  "konami_buffer (''x'' # ''y'' # konamiSequence) [] = konamiSequence \<and>
   length (konami_buffer (''x'' # ''y'' # konamiSequence) []) = 10"
proof -
  have d: "drop (length (''x'' # ''y'' # konamiSequence) - 10) (''x'' # ''y'' # konamiSequence) = konamiSequence"
    by (simp add: konamiSequence_def)
  from konami_buffer_window[of "''x''" "[]" "''x'' # ''y'' # konamiSequence"] d
  show ?thesis by (simp add: length_konamiSequence)
qed

subsection \<open>C10: a key press with no active Section\<close>



end
